theory Spec2Isabelle
  imports Complex_Main "HOL-Library.Word" "HOL-Library.Sublist" "HOL-Library.Multiset"
begin

section \<open>ArrayPool (algorithms/array\_pool.h)\<close>

text \<open>
  Reading a \<open>std::vector\<close> with \<open>operator[]\<close> outside its range, and moving an
  iterator outside \<open>[begin, end]\<close>, are undefined behaviour in C++. The model makes
  both a value, \<open>Out_of_bounds\<close>. A failed \<open>assert\<close> would be \<open>Assertion_failed\<close>.
\<close>

datatype fault = Out_of_bounds | Assertion_failed

text \<open>
  The conversion of a \<open>size_t\<close> to \<open>int\<close>, as in \<open>positions.push_back(data.size())\<close>
  and in \<open>int size() const { return positions.size(); }\<close>: the low 32 bits, read as
  two's complement.
\<close>

definition size_t_to_int :: "nat \<Rightarrow> int" where
  "size_t_to_int n = sint (word_of_nat n :: 32 word)"

text \<open>\<open>xs[i]\<close> on a \<open>std::vector\<close>, with \<open>i\<close> an \<open>int\<close>.\<close>

definition vec_at :: "'a list \<Rightarrow> int \<Rightarrow> fault + 'a" where
  "vec_at xs i =
     (if 0 \<le> i \<and> i < int (length xs) then Inr (xs ! nat i) else Inl Out_of_bounds)"

text \<open>\<open>xs.begin() + off\<close>: an iterator is its distance from \<open>begin()\<close>.\<close>

definition iter_plus :: "'a list \<Rightarrow> int \<Rightarrow> fault + int" where
  "iter_plus xs off =
     (if 0 \<le> off \<and> off \<le> int (length xs) then Inr off else Inl Out_of_bounds)"

record ArrayPoolSlice =
  first_it :: int
  last_it :: int

record 'a ArrayPool =
  data :: "'a list"
  positions :: "int list"

definition empty_pool :: "'a ArrayPool" where
  "empty_pool = \<lparr>data = [], positions = []\<rparr>"

definition push_back :: "'a list \<Rightarrow> 'a ArrayPool \<Rightarrow> 'a ArrayPool" where
  "push_back vec p =
     \<lparr>data = data p @ vec,
      positions = positions p @ [size_t_to_int (length (data p))]\<rparr>"

definition size_pool :: "'a ArrayPool \<Rightarrow> int" where
  "size_pool p = size_t_to_int (length (positions p))"

definition get_slice :: "'a ArrayPool \<Rightarrow> int \<Rightarrow> fault + ArrayPoolSlice" where
  "get_slice p index =
     (case vec_at (positions p) index of
        Inl e \<Rightarrow> Inl e
      | Inr pos \<Rightarrow>
          (case iter_plus (data p) pos of
             Inl e \<Rightarrow> Inl e
           | Inr fst_it \<Rightarrow>
               (if index = size_pool p - 1
                then Inr \<lparr>first_it = fst_it, last_it = int (length (data p))\<rparr>
                else (case vec_at (positions p) (index + 1) of
                        Inl e \<Rightarrow> Inl e
                      | Inr nxt \<Rightarrow>
                          (case iter_plus (data p) nxt of
                             Inl e \<Rightarrow> Inl e
                           | Inr lst_it \<Rightarrow>
                               Inr \<lparr>first_it = fst_it, last_it = lst_it\<rparr>)))))"

text \<open>The elements a range-for over a slice visits, from \<open>begin()\<close> up to \<open>end()\<close>.\<close>

definition slice_elems :: "'a ArrayPool \<Rightarrow> ArrayPoolSlice \<Rightarrow> 'a list" where
  "slice_elems p s =
     take (nat (last_it s - first_it s)) (drop (nat (first_it s)) (data p))"

text \<open>Pushing the vectors of a list in order, the first one first.\<close>

definition push_all :: "'a list list \<Rightarrow> 'a ArrayPool \<Rightarrow> 'a ArrayPool" where
  "push_all vecs p = foldl (\<lambda>q vec. push_back vec q) p vecs"

definition INT_MAX :: nat where
  "INT_MAX = 2147483647"

text \<open>Where the vector pushed as number \<open>k\<close> starts in the backing storage.\<close>

definition offset_of :: "'a list list \<Rightarrow> nat \<Rightarrow> nat" where
  "offset_of vecs k = length (concat (take k vecs))"

section \<open>The sampler of the diversification panel and the pool generator
  (cost\_saturation/cost\_partitioning\_heuristic\_collection\_generator.cc)\<close>

text \<open>
  The generator works with collaborators whose code is not part of the sources at hand:
  the task, the abstractions, the order generator, the random number generator, the
  random walk sampler, the diversifier, the order optimizer and the wall clock. They are
  parameters of the model. Whatever they change (the state of the random number generator
  and of the order generator, the time) is the world \<open>'w\<close>, which every call that can
  change it takes and returns. Output written to the log is not modelled.

  Values of the type \<open>int\<close> of the code are integers, and what the code adds up in an
  \<open>int\<close> variable (\<open>size_kb += \<dots>\<close>, \<open>++evaluated_orders\<close>) wraps around at 32 bits. The
  counts of partitions and of samples that the code compares after \<open>static_cast<int>\<close>
  are the lengths of the lists.
\<close>

text \<open>The value that an \<open>int\<close> variable holds after a sum \<open>x\<close> was stored in it.\<close>

definition wrap_int :: "int \<Rightarrow> int" where
  "wrap_int x = sint (word_of_int x :: 32 word)"

type_synonym Order = "int list"

text \<open>
  \<open>cp_function(abstractions, order, remaining_costs, abstract_state_ids)\<close>. The third
  argument is passed by non-const reference: the function returns the partition and the
  remaining costs as it leaves them.
\<close>

type_synonym 'cp CPFunction = "Order \<Rightarrow> int list \<Rightarrow> int list \<Rightarrow> 'cp \<times> int list"

record CountdownTimer =
  start_time :: real
  timer_max_time :: real

text \<open>
  The collaborators, with a state type \<open>'s\<close>, a type \<open>'cp\<close> of partitions
  (\<open>CostPartitioningHeuristic\<close>) and a type \<open>'d\<close> of diversifiers:
  \<^item> \<open>get_initial_state\<close> is \<open>task_proxy.get_initial_state()\<close>;
  \<^item> \<open>get_abstract_state_ids s\<close> is \<open>get_abstract_state_ids(abstractions, s)\<close>;
  \<^item> \<open>num_abstractions\<close> is \<open>abstractions.size()\<close>;
  \<^item> \<open>initialize costs\<close> is \<open>order_generator->initialize(abstractions, costs)\<close>;
  \<^item> \<open>compute_order_for_state ids b\<close> is \<open>order_generator->compute_order_for_state(ids, b)\<close>;
  \<^item> \<open>cp_compute_heuristic cp ids\<close> is \<open>cp.compute_heuristic(ids)\<close> and
    \<open>estimate_size_in_kb cp\<close> is \<open>cp.estimate_size_in_kb()\<close>;
  \<^item> \<open>sample_state h dead\<close> is \<open>sampler.sample_state(h, dead)\<close>;
  \<^item> \<open>shuffle xs\<close> is \<open>rng->shuffle(xs)\<close>, returning the vector as shuffled;
  \<^item> \<open>read_clock\<close> reads the wall clock;
  \<^item> \<open>new_Diversifier samples\<close> constructs a \<open>Diversifier\<close>, and
    \<open>is_diverse cp d\<close> is \<open>d.is_diverse(cp)\<close> with the diversifier as the call leaves it;
  \<^item> \<open>optimize_order_with_hill_climbing\<close> takes the arguments of the function of that
    name (without the abstractions) and returns the order and the partition as the call
    leaves them;
  \<^item> \<open>systematic_generator_orders_hacked\<close> is the global vector of that name;
  \<^item> \<open>INF_value\<close> is the constant \<open>INF\<close>.
\<close>

record ('w, 's, 'cp, 'd) collaborators =
  get_initial_state :: "'s"
  get_abstract_state_ids :: "'s \<Rightarrow> int list"
  num_abstractions :: nat
  initialize :: "int list \<Rightarrow> 'w \<Rightarrow> 'w"
  compute_order_for_state :: "int list \<Rightarrow> bool \<Rightarrow> 'w \<Rightarrow> Order \<times> 'w"
  cp_compute_heuristic :: "'cp \<Rightarrow> int list \<Rightarrow> int"
  estimate_size_in_kb :: "'cp \<Rightarrow> int"
  sample_state :: "int \<Rightarrow> ('s \<Rightarrow> bool) \<Rightarrow> 'w \<Rightarrow> 's \<times> 'w"
  shuffle :: "int list \<Rightarrow> 'w \<Rightarrow> int list \<times> 'w"
  read_clock :: "'w \<Rightarrow> real \<times> 'w"
  new_Diversifier :: "int list list \<Rightarrow> 'd"
  is_diverse :: "'cp \<Rightarrow> 'd \<Rightarrow> bool \<times> 'd"
  optimize_order_with_hill_climbing ::
    "'cp CPFunction \<Rightarrow> CountdownTimer \<Rightarrow> int list \<Rightarrow> int list \<Rightarrow> Order \<Rightarrow> 'cp \<Rightarrow> int \<Rightarrow> bool
       \<Rightarrow> 'w \<Rightarrow> (Order \<times> 'cp) \<times> 'w"
  systematic_generator_orders_hacked :: "Order list"
  INF_value :: int

text \<open>The members of \<open>CostPartitioningHeuristicCollectionGenerator\<close> that are plain values.\<close>

record generator_options =
  max_orders :: int
  max_size_kb :: int
  max_time :: real
  diversify :: bool
  num_samples :: int
  max_optimization_time :: real

text \<open>
  Modelled from the spec: the constructor of the countdown timer of the system services
  (elapsed, remaining, expired), whose code (utils/countdown\_timer.h) is not among the
  sources. A timer remembers when it was started and its budget. Durations are real
  numbers; a budget that no clock reading reaches stands for an unlimited one.
\<close>

definition new_CountdownTimer ::
  "('w, 's, 'cp, 'd) collaborators \<Rightarrow> real \<Rightarrow> 'w \<Rightarrow> CountdownTimer \<times> 'w" where
  "new_CountdownTimer E budget w =
     (let (t, w1) = read_clock E w
      in (\<lparr>start_time = t, timer_max_time = budget\<rparr>, w1))"

text \<open>
  Modelled from the spec: \<open>is_expired()\<close> of the countdown timer (not among the
  sources) reads the clock; the timer has expired when the time elapsed since its start
  has reached its budget.
\<close>

definition is_expired ::
  "('w, 's, 'cp, 'd) collaborators \<Rightarrow> CountdownTimer \<Rightarrow> 'w \<Rightarrow> bool \<times> 'w" where
  "is_expired E tm w =
     (let (t, w1) = read_clock E w
      in (timer_max_time tm \<le> t - start_time tm, w1))"

text \<open>
  Modelled from the spec: \<open>get_remaining_time()\<close> of the countdown timer (not among the
  sources) reads the clock; the remaining time is the budget less the time elapsed.
\<close>

definition get_remaining_time ::
  "('w, 's, 'cp, 'd) collaborators \<Rightarrow> CountdownTimer \<Rightarrow> 'w \<Rightarrow> real \<times> 'w" where
  "get_remaining_time E tm w =
     (let (t, w1) = read_clock E w
      in (timer_max_time tm - (t - start_time tm), w1))"

subsection \<open>sample\_states\_and\_return\_abstract\_state\_ids\<close>

text \<open>The \<open>while\<close> loop of lines 38 to 42.\<close>

function sample_loop ::
  "('w, 's, 'cp, 'd) collaborators \<Rightarrow> int \<Rightarrow> int \<Rightarrow> ('s \<Rightarrow> bool) \<Rightarrow> CountdownTimer
     \<Rightarrow> int list list \<Rightarrow> 'w \<Rightarrow> int list list \<times> 'w" where
  "sample_loop E n_samples init_h is_dead_end sampling_timer abstract_state_ids_by_sample w =
     (if int (length abstract_state_ids_by_sample) < n_samples
      then (let (expired, w1) = is_expired E sampling_timer w
            in if \<not> expired
               then (let (s, w2) = sample_state E init_h is_dead_end w1
                     in sample_loop E n_samples init_h is_dead_end sampling_timer
                          (abstract_state_ids_by_sample @ [get_abstract_state_ids E s]) w2)
               else (abstract_state_ids_by_sample, w1))
      else (abstract_state_ids_by_sample, w))"
  by pat_completeness auto
termination
  by (relation "measure (\<lambda>(E, n, h, d, tm, samples, w). nat (n - int (length samples)))") auto

definition sample_states_and_return_abstract_state_ids ::
  "('w, 's, 'cp, 'd) collaborators \<Rightarrow> int \<Rightarrow> int \<Rightarrow> ('s \<Rightarrow> bool) \<Rightarrow> real \<Rightarrow> 'w
     \<Rightarrow> fault + int list list \<times> 'w" where
  "sample_states_and_return_abstract_state_ids E n_samples init_h is_dead_end max_sampling_time w =
     (if \<not> 1 \<le> n_samples then Inl Assertion_failed
      else (let (sampling_timer, w1) = new_CountdownTimer E max_sampling_time w;
                abstract_state_ids_by_sample =
                  [get_abstract_state_ids E (get_initial_state E)]
            in Inr (sample_loop E n_samples init_h is_dead_end sampling_timer
                      abstract_state_ids_by_sample w1)))"

subsection \<open>generate\_cost\_partitionings\<close>

text \<open>
  Modelled from the spec: \<open>get_default_order\<close> (declared in utils.h, not among the sources)
  lists the abstraction indices \<open>0, 1, \<dots>\<close> below the number of abstractions.
\<close>

definition get_default_order :: "nat \<Rightarrow> int list" where
  "get_default_order n = map int [0..<n]"

text \<open>
  Lines 128 to 132: \<open>used.insert(abs_id).second\<close> holds when \<open>abs_id\<close> was not in \<open>used\<close>
  before.
\<close>

fun append_unused :: "int list \<Rightarrow> int set \<times> Order \<Rightarrow> int set \<times> Order" where
  "append_unused [] (used, order) = (used, order)"
| "append_unused (abs_id # abstraction_ids) (used, order) =
     (if abs_id \<notin> used
      then append_unused abstraction_ids (insert abs_id used, order @ [abs_id])
      else append_unused abstraction_ids (used, order))"

text \<open>Lines 124 to 132: the full order made from a systematic order.\<close>

definition complete_order ::
  "('w, 's, 'cp, 'd) collaborators \<Rightarrow> Order \<Rightarrow> 'w \<Rightarrow> Order \<times> 'w" where
  "complete_order E sys_order w =
     (let (abstraction_ids, w1) = shuffle E (get_default_order (num_abstractions E)) w
      in (snd (append_unused abstraction_ids (set sys_order, sys_order)), w1))"

text \<open>The local variables that the two loops of the generator change.\<close>

record ('cp, 'd, 'w) gen_state =
  cp_heuristics :: "'cp list"
  evaluated_orders :: int
  size_kb :: int
  diversifier :: "'d option"
  world :: 'w

text \<open>
  \<open>!diversifier || diversifier->is_diverse(cp_heuristic)\<close>; \<open>is_diverse\<close> updates the
  diversifier.
\<close>

definition diverse_or_no_diversifier ::
  "('w, 's, 'cp, 'd) collaborators \<Rightarrow> 'd option \<Rightarrow> 'cp \<Rightarrow> bool \<times> 'd option" where
  "diverse_or_no_diversifier E dv cp_heuristic =
     (case dv of
        None \<Rightarrow> (True, None)
      | Some d \<Rightarrow> (let (b, d1) = is_diverse E cp_heuristic d in (b, Some d1)))"

text \<open>The loop over the systematic orders, lines 119 to 146.\<close>

fun systematic_loop ::
  "('w, 's, 'cp, 'd) collaborators \<Rightarrow> 'cp CPFunction \<Rightarrow> int list \<Rightarrow> int list \<Rightarrow> CountdownTimer
     \<Rightarrow> Order list \<Rightarrow> ('cp, 'd, 'w) gen_state \<Rightarrow> ('cp, 'd, 'w) gen_state" where
  "systematic_loop E cp_function costs abstract_state_ids_for_init timer [] st = st"
| "systematic_loop E cp_function costs abstract_state_ids_for_init timer (sys_order # rest) st =
     (let (expired, w1) = is_expired E timer (world st)
      in if expired \<and> cp_heuristics st \<noteq> [] then st\<lparr>world := w1\<rparr>
         else
           (let (order, w2) = complete_order E sys_order w1;
                (cp_heuristic, remaining_costs) =
                   cp_function order costs abstract_state_ids_for_init;
                (diverse, dv) = diverse_or_no_diversifier E (diversifier st) cp_heuristic
            in systematic_loop E cp_function costs abstract_state_ids_for_init timer rest
                 (st\<lparr>cp_heuristics :=
                        (if diverse then cp_heuristics st @ [cp_heuristic]
                         else cp_heuristics st),
                     diversifier := dv,
                     world := w2\<rparr>)))"

text \<open>
  The condition of the \<open>while\<close> loop, lines 154 to 156, with the state after it was
  evaluated: \<open>&&\<close> reads the clock only when the count is below \<open>max_orders\<close>.
\<close>

definition sampling_condition ::
  "('w, 's, 'cp, 'd) collaborators \<Rightarrow> generator_options \<Rightarrow> CountdownTimer
     \<Rightarrow> ('cp, 'd, 'w) gen_state \<Rightarrow> bool \<times> ('cp, 'd, 'w) gen_state" where
  "sampling_condition E opts timer st =
     (if int (length (cp_heuristics st)) < max_orders opts
      then (let (expired, w1) = is_expired E timer (world st)
            in ((\<not> expired \<or> cp_heuristics st = []) \<and> size_kb st < max_size_kb opts,
                st\<lparr>world := w1\<rparr>))
      else (False, st))"

text \<open>What the generator computed before its loops and uses in them.\<close>

record ('s, 'cp) init_values =
  abstract_state_ids_for_init :: "int list"
  order_for_init :: Order
  cp_for_init :: 'cp
  init_h :: int
  is_dead_end :: "'s \<Rightarrow> bool"
  timer :: CountdownTimer

text \<open>Line 194: \<open>size_kb += cp_heuristic.estimate_size_in_kb()\<close>.\<close>

definition add_size ::
  "('w, 's, 'cp, 'd) collaborators \<Rightarrow> int \<Rightarrow> 'cp \<Rightarrow> int" where
  "add_size E kb cp_heuristic = wrap_int (kb + estimate_size_in_kb E cp_heuristic)"

text \<open>The body of the \<open>while\<close> loop, lines 157 to 205.\<close>

definition sampling_body ::
  "('w, 's, 'cp, 'd) collaborators \<Rightarrow> generator_options \<Rightarrow> int list \<Rightarrow> 'cp CPFunction
     \<Rightarrow> ('s, 'cp) init_values \<Rightarrow> ('cp, 'd, 'w) gen_state \<Rightarrow> ('cp, 'd, 'w) gen_state" where
  "sampling_body E opts costs cp_function iv st =
     (let is_first_order = (evaluated_orders st = 0);
          ((abstract_state_ids, order, cp_heuristic), w1) =
            (if is_first_order
             then ((abstract_state_ids_for_init iv, order_for_init iv, cp_for_init iv), world st)
             else (let (s, wa) = sample_state E (init_h iv) (is_dead_end iv) (world st);
                       abstract_state_ids = get_abstract_state_ids E s;
                       (order, wb) = compute_order_for_state E abstract_state_ids False wa;
                       (cp_heuristic, remaining_costs) =
                          cp_function order costs abstract_state_ids
                   in ((abstract_state_ids, order, cp_heuristic), wb)));
          (remaining_time, w2) = get_remaining_time E (timer iv) w1;
          optimization_time = min remaining_time (max_optimization_time opts);
          ((order1, cp_heuristic1), w3) =
            (if 0 < optimization_time
             then (let (opt_timer, wc) = new_CountdownTimer E optimization_time w2;
                       incumbent_h_value = cp_compute_heuristic E cp_heuristic abstract_state_ids
                   in optimize_order_with_hill_climbing E cp_function opt_timer costs
                        abstract_state_ids order cp_heuristic incumbent_h_value
                        is_first_order wc)
             else ((order, cp_heuristic), w2));
          (diverse, dv) = diverse_or_no_diversifier E (diversifier st) cp_heuristic1
      in \<lparr>cp_heuristics =
             (if diverse then cp_heuristics st @ [cp_heuristic1] else cp_heuristics st),
          evaluated_orders = wrap_int (evaluated_orders st + 1),
          size_kb =
             (if diverse then add_size E (size_kb st) cp_heuristic1 else size_kb st),
          diversifier = dv,
          world = w3\<rparr>)"

text \<open>
  The \<open>while\<close> loop, lines 154 to 206. Nothing bounds the number of its iterations when
  the diversifier rejects every candidate: a run that never leaves the loop is \<open>None\<close>.
\<close>

partial_function (option) sampling_loop ::
  "('w, 's, 'cp, 'd) collaborators \<Rightarrow> generator_options \<Rightarrow> int list \<Rightarrow> 'cp CPFunction
     \<Rightarrow> ('s, 'cp) init_values \<Rightarrow> ('cp, 'd, 'w) gen_state \<Rightarrow> ('cp, 'd, 'w) gen_state option" where
  "sampling_loop E opts costs cp_function iv st =
     (let (continue, st1) = sampling_condition E opts (timer iv) st
      in if continue
         then sampling_loop E opts costs cp_function iv
                (sampling_body E opts costs cp_function iv st1)
         else Some st1)"

declare sampling_loop.simps [code]

text \<open>
  Lines 112 to 146: the systematic phase, from the empty vector of partitions. The result
  holds the local variables as they are after the \<open>for\<close> loop.
\<close>

definition systematic_phase ::
  "('w, 's, 'cp, 'd) collaborators \<Rightarrow> int list \<Rightarrow> 'cp CPFunction
     \<Rightarrow> ('s, 'cp) init_values \<Rightarrow> 'd option \<Rightarrow> 'w \<Rightarrow> ('cp, 'd, 'w) gen_state" where
  "systematic_phase E costs cp_function iv dv w =
     systematic_loop E cp_function costs (abstract_state_ids_for_init iv) (timer iv)
       (systematic_generator_orders_hacked E)
       \<lparr>cp_heuristics = [], evaluated_orders = 0, size_kb = 0, diversifier = dv,
        world = w\<rparr>"

text \<open>
  Lines 112 to 213: both phases. The result holds the local variables as they are at the
  \<open>return\<close>.
\<close>

definition generate_phases ::
  "('w, 's, 'cp, 'd) collaborators \<Rightarrow> generator_options \<Rightarrow> int list \<Rightarrow> 'cp CPFunction
     \<Rightarrow> ('s, 'cp) init_values \<Rightarrow> 'd option \<Rightarrow> 'w \<Rightarrow> ('cp, 'd, 'w) gen_state option" where
  "generate_phases E opts costs cp_function iv dv w =
     sampling_loop E opts costs cp_function iv
       (systematic_phase E costs cp_function iv dv w)"

text \<open>Lines 104 to 110: the diversifier, when diversification is on.\<close>

definition make_diversifier ::
  "('w, 's, 'cp, 'd) collaborators \<Rightarrow> generator_options \<Rightarrow> ('s, 'cp) init_values \<Rightarrow> 'w
     \<Rightarrow> fault + 'd option \<times> 'w" where
  "make_diversifier E opts iv w =
     (if diversify opts
      then (let (max_sampling_time, w1) = get_remaining_time E (timer iv) w
            in case sample_states_and_return_abstract_state_ids E (num_samples opts)
                      (init_h iv) (is_dead_end iv) max_sampling_time w1 of
                 Inl e \<Rightarrow> Inl e
               | Inr (samples, w2) \<Rightarrow> Inr (Some (new_Diversifier E samples), w2))
      else Inr (None, w))"

text \<open>Lines 74 to 88: the partition for the initial state.\<close>

definition initial_partition ::
  "('w, 's, 'cp, 'd) collaborators \<Rightarrow> generator_options \<Rightarrow> int list \<Rightarrow> 'cp CPFunction \<Rightarrow> 'w
     \<Rightarrow> ('s, 'cp) init_values \<times> 'w" where
  "initial_partition E opts costs cp_function w =
     (let (tm, w1) = new_CountdownTimer E (max_time opts) w;
          initial_state = get_initial_state E;
          w2 = initialize E costs w1;
          ids = get_abstract_state_ids E initial_state;
          (order, w3) = compute_order_for_state E ids True w2;
          (cp, remaining_costs) = cp_function order costs ids
      in (\<lparr>abstract_state_ids_for_init = ids,
           order_for_init = order,
           cp_for_init = cp,
           init_h = cp_compute_heuristic E cp ids,
           is_dead_end =
             (\<lambda>state. cp_compute_heuristic E cp (get_abstract_state_ids E state) = INF_value E),
           timer = tm\<rparr>, w3))"

text \<open>
  The whole function. A failed assertion is \<open>Some (Inl Assertion_failed)\<close>, a run that
  never returns is \<open>None\<close>, and a run that returns gives the vector of partitions and the
  world it leaves.
\<close>

definition generate_cost_partitionings ::
  "('w, 's, 'cp, 'd) collaborators \<Rightarrow> generator_options \<Rightarrow> int list \<Rightarrow> 'cp CPFunction \<Rightarrow> 'w
     \<Rightarrow> (fault + 'cp list \<times> 'w) option" where
  "generate_cost_partitionings E opts costs cp_function w =
     (let (iv, w1) = initial_partition E opts costs cp_function w
      in if init_h iv = INF_value E then Some (Inr ([cp_for_init iv], w1))
         else (case make_diversifier E opts iv w1 of
                 Inl e \<Rightarrow> Some (Inl e)
               | Inr (dv, w2) \<Rightarrow>
                   (case generate_phases E opts costs cp_function iv dv w2 of
                      None \<Rightarrow> None
                    | Some st \<Rightarrow> Some (Inr (cp_heuristics st, world st)))))"

section \<open>The evaluator (cost\_saturation/max\_cost\_partitioning\_heuristic.cc)\<close>

text \<open>
  The members of \<open>MaxCostPartitioningHeuristic\<close> that \<open>compute_heuristic\<close> uses. The
  abstraction functions appear through \<open>get_abstract_state_ids(abstraction_functions, state)\<close>,
  the unsolvability heuristic through its \<open>is_unsolvable\<close>, a partition through its
  \<open>compute_heuristic\<close>. \<open>DEAD_END\<close> is the constant of the base class \<open>Heuristic\<close>.
  The timers only measure and are left out.
\<close>

record ('s, 'cp) MaxCostPartitioningHeuristic =
  ids_of_state :: "'s \<Rightarrow> int list"
  is_unsolvable :: "int list \<Rightarrow> bool"
  evaluate :: "'cp \<Rightarrow> int list \<Rightarrow> int"
  pool :: "'cp list"
  num_best_order :: "int list"
  DEAD_END :: int

text \<open>The position of the first occurrence of a value in a list.\<close>

fun first_index_of :: "int \<Rightarrow> int list \<Rightarrow> nat" where
  "first_index_of x [] = 0"
| "first_index_of x (y # ys) = (if x = y then 0 else Suc (first_index_of x ys))"

text \<open>
  Modelled from the spec: \<open>compute_max_h_with_statistics\<close> (declared in utils.h, not among
  the sources) evaluates every pool member against the ids and takes the maximum, and
  counts for the first member that produced the maximum one more time that it was best.
  The tally has one entry per pool member. Values are at least 0, which is the maximum
  of an empty pool; the infinite sentinel is the largest value, so the maximum is infinite
  when the evaluation of some member is.
\<close>

definition compute_max_h_with_statistics ::
  "('cp \<Rightarrow> int list \<Rightarrow> int) \<Rightarrow> 'cp list \<Rightarrow> int list \<Rightarrow> int list \<Rightarrow> int \<times> int list" where
  "compute_max_h_with_statistics eval cps abstract_state_ids tally =
     (let hs = map (\<lambda>cp. eval cp abstract_state_ids) cps;
          max_h = fold max hs 0;
          best_id = first_index_of max_h hs;
          tally1 = tally @ replicate (length cps - length tally) 0
      in (max_h,
          if best_id < length tally1 then tally1[best_id := tally1 ! best_id + 1]
          else tally1))"

text \<open>
  \<open>compute_heuristic(const State &state)\<close>, lines 110 to 132: the value returned and the
  evaluator with its tally as the call leaves it.
\<close>

definition compute_heuristic ::
  "('s, 'cp) MaxCostPartitioningHeuristic \<Rightarrow> 's
     \<Rightarrow> int \<times> ('s, 'cp) MaxCostPartitioningHeuristic" where
  "compute_heuristic H state =
     (let abstract_state_ids = ids_of_state H state
      in if is_unsolvable H abstract_state_ids then (DEAD_END H, H)
         else (let (max_h, tally) =
                     compute_max_h_with_statistics (evaluate H) (pool H) abstract_state_ids
                       (num_best_order H)
               in (max_h, H\<lparr>num_best_order := tally\<rparr>)))"

section \<open>A small instance\<close>

text \<open>
  Collaborators to run the model on. The world is a counter: reading the clock returns it
  and advances it, as do sampling a state and shuffling. A partition is the order and the
  costs it was computed from; its value is the sum of these costs, its size 5.
\<close>

definition demo_cp_function :: "(Order \<times> int list) CPFunction" where
  "demo_cp_function order remaining_costs abstract_state_ids =
     ((order, remaining_costs), map (\<lambda>c. 0) remaining_costs)"

definition demo_optimize ::
  "(Order \<times> int list) CPFunction \<Rightarrow> CountdownTimer \<Rightarrow> int list \<Rightarrow> int list \<Rightarrow> Order
     \<Rightarrow> Order \<times> int list \<Rightarrow> int \<Rightarrow> bool \<Rightarrow> nat \<Rightarrow> (Order \<times> Order \<times> int list) \<times> nat" where
  "demo_optimize cp_function opt_timer costs abstract_state_ids order cp h verbose w =
     (let (neighbor_cp, remaining_costs) = cp_function (rev order) costs abstract_state_ids
      in if h < sum_list (snd neighbor_cp) then ((rev order, neighbor_cp), Suc w)
         else ((order, cp), Suc w))"

definition demo_collaborators :: "(nat, nat, Order \<times> int list, int) collaborators" where
  "demo_collaborators =
     \<lparr>get_initial_state = 0,
      get_abstract_state_ids = (\<lambda>s. [int s, 0, 0]),
      num_abstractions = 3,
      initialize = (\<lambda>costs w. w),
      compute_order_for_state = (\<lambda>ids is_init w. (if is_init then [0, 1, 2] else [2, 1, 0], w)),
      cp_compute_heuristic = (\<lambda>cp ids. sum_list (snd cp)),
      estimate_size_in_kb = (\<lambda>cp. 5),
      sample_state = (\<lambda>h dead w. (w, Suc w)),
      shuffle = (\<lambda>xs w. (rev xs, Suc w)),
      read_clock = (\<lambda>w. (real w, Suc w)),
      new_Diversifier = (\<lambda>samples. - 1),
      is_diverse = (\<lambda>cp best. (best < sum_list (snd cp), max best (sum_list (snd cp)))),
      optimize_order_with_hill_climbing = demo_optimize,
      systematic_generator_orders_hacked = [[1], [2, 0]],
      INF_value = 2147483647\<rparr>"

definition demo_options :: generator_options where
  "demo_options =
     \<lparr>max_orders = 1, max_size_kb = 1, max_time = 0, diversify = False, num_samples = 2,
      max_optimization_time = 1\<rparr>"

text \<open>Further instances: no systematic orders; room for four partitions of total size below 7.\<close>

definition demo_no_systematic :: "(nat, nat, Order \<times> int list, int) collaborators" where
  "demo_no_systematic = demo_collaborators\<lparr>systematic_generator_orders_hacked := []\<rparr>"

definition demo_options_roomy :: generator_options where
  "demo_options_roomy = demo_options\<lparr>max_time := 100, max_orders := 4, max_size_kb := 7\<rparr>"

definition demo_init_values :: "(nat, Order \<times> int list) init_values" where
  "demo_init_values =
     fst (initial_partition demo_collaborators demo_options_roomy [2, 2] demo_cp_function 0)"



text \<open>
  Partitions of size \<open>2^30\<close> and no systematic orders; options with room for five
  partitions and the largest size cap.
\<close>

definition demo_huge :: "(nat, nat, Order \<times> int list, int) collaborators" where
  "demo_huge = demo_no_systematic\<lparr>estimate_size_in_kb := (\<lambda>cp. 1073741824)\<rparr>"

definition demo_options_huge :: generator_options where
  "demo_options_huge =
     demo_options\<lparr>max_time := 100, max_orders := 5, max_size_kb := 2147483647\<rparr>"

text \<open>
  A second cp function: on the costs \<open>[2, 2]\<close> it returns the partition that
  \<open>demo_cp_function\<close> returns, but leaves the remaining costs as they are; on other costs
  it returns another partition.
\<close>

definition demo_cp_function_other :: "(Order \<times> int list) CPFunction" where
  "demo_cp_function_other order remaining_costs abstract_state_ids =
     (if remaining_costs = [2, 2] then ((order, remaining_costs), remaining_costs)
      else ((order, []), []))"

text \<open>An evaluator with a pool of three partitions; the state 7 is a certified dead end.\<close>

definition demo_evaluator :: "(nat, int) MaxCostPartitioningHeuristic" where
  "demo_evaluator =
     \<lparr>ids_of_state = (\<lambda>s. [int s]),
      is_unsolvable = (\<lambda>ids. ids = [7]),
      evaluate = (\<lambda>cp ids. cp + sum_list ids),
      pool = [3, 9, 5],
      num_best_order = [0, 0, 0],
      DEAD_END = - 1\<rparr>"

section \<open>Predicates used in the proofs\<close>

text \<open>
  What the loop over \<open>n\<close> systematic orders does to the local variables: it appends at most
  \<open>n\<close> partitions, leaves the size and the number of evaluated orders alone, and makes no
  diversifier where there was none.
\<close>

definition systematic_effect ::
  "('cp, 'd, 'w) gen_state \<Rightarrow> nat \<Rightarrow> ('cp, 'd, 'w) gen_state \<Rightarrow> bool" where
  "systematic_effect st n st1 \<longleftrightarrow>
     (\<exists>adm. cp_heuristics st1 = cp_heuristics st @ adm \<and> length adm \<le> n)
     \<and> size_kb st1 = size_kb st
     \<and> evaluated_orders st1 = evaluated_orders st
     \<and> (diversifier st = None \<longrightarrow> diversifier st1 = None)"

text \<open>
  The size accumulated from 0 when the size estimates of the partitions of a list are
  added one after the other, as line 194 does.
\<close>

definition accumulated_size ::
  "('w, 's, 'cp, 'd) collaborators \<Rightarrow> 'cp list \<Rightarrow> int" where
  "accumulated_size E adm = foldl (add_size E) 0 adm"

text \<open>
  What a run of the \<open>while\<close> loop does to the pool and to the size: it appends partitions,
  adds their size estimates one after the other, and before the last one was added the
  size was below the cap.
\<close>

definition sampling_effect ::
  "('w, 's, 'cp, 'd) collaborators \<Rightarrow> generator_options
     \<Rightarrow> ('cp, 'd, 'w) gen_state \<Rightarrow> ('cp, 'd, 'w) gen_state \<Rightarrow> bool" where
  "sampling_effect E opts st st1 \<longleftrightarrow>
     (\<exists>adm. cp_heuristics st1 = cp_heuristics st @ adm
        \<and> size_kb st1 = foldl (add_size E) (size_kb st) adm
        \<and> (adm = [] \<or> foldl (add_size E) (size_kb st) (butlast adm) < max_size_kb opts))"

section \<open>Properties of ArrayPool\<close>

subsection \<open>The layout after a sequence of pushes\<close>

lemma size_t_to_int_small: "n \<le> INT_MAX \<Longrightarrow> size_t_to_int n = int n"
  unfolding size_t_to_int_def INT_MAX_def
  by (simp add: signed_of_nat signed_take_bit_int_eq_self)

lemma push_all_snoc: "push_all (vecs @ [v]) p = push_back v (push_all vecs p)"
  by (simp add: push_all_def)

lemma data_push_all: "data (push_all vecs empty_pool) = concat vecs"
proof (induction vecs rule: rev_induct)
  case Nil
  show ?case by (simp add: push_all_def empty_pool_def)
next
  case (snoc v vecs)
  then show ?case by (simp add: push_all_snoc push_back_def)
qed

lemma positions_push_all:
  "positions (push_all vecs empty_pool) =
     map (\<lambda>k. size_t_to_int (offset_of vecs k)) [0..<length vecs]"
proof (induction vecs rule: rev_induct)
  case Nil
  show ?case by (simp add: push_all_def empty_pool_def)
next
  case (snoc v vecs)
  have "map (\<lambda>k. size_t_to_int (offset_of (vecs @ [v]) k)) [0..<length vecs]
      = map (\<lambda>k. size_t_to_int (offset_of vecs k)) [0..<length vecs]"
    by (simp add: offset_of_def)
  then show ?case
    using snoc by (simp add: push_all_snoc push_back_def data_push_all offset_of_def)
qed

lemma offset_of_mono: "j \<le> k \<Longrightarrow> offset_of vecs j \<le> offset_of vecs k"
proof -
  assume "j \<le> k"
  then have "take k vecs = take j vecs @ take (k - j) (drop j vecs)"
    by (metis le_add_diff_inverse take_add)
  then show ?thesis by (simp add: offset_of_def)
qed

lemma offset_of_le_total: "offset_of vecs k \<le> length (concat vecs)"
  using offset_of_mono [of k "max k (length vecs)" vecs] by (simp add: offset_of_def)

lemma offset_of_Suc:
  "i < length vecs \<Longrightarrow> offset_of vecs (Suc i) = offset_of vecs i + length (vecs ! i)"
  by (simp add: offset_of_def take_Suc_conv_app_nth)

lemma slice_of_concat:
  "i < length vecs \<Longrightarrow>
     take (length (vecs ! i)) (drop (offset_of vecs i) (concat vecs)) = vecs ! i"
proof -
  assume "i < length vecs"
  then have "concat vecs = concat (take i vecs) @ vecs ! i @ concat (drop (Suc i) vecs)"
    by (metis concat.simps(2) concat_append id_take_nth_drop)
  then show ?thesis by (simp add: offset_of_def)
qed

lemma size_pool_push_all:
  "length vecs \<le> INT_MAX \<Longrightarrow> size_pool (push_all vecs empty_pool) = int (length vecs)"
  by (simp add: size_pool_def positions_push_all size_t_to_int_small)

lemma position_push_all:
  assumes "length (concat vecs) \<le> INT_MAX" and "i < length vecs"
  shows "vec_at (positions (push_all vecs empty_pool)) (int i) = Inr (int (offset_of vecs i))"
proof -
  have "offset_of vecs i \<le> INT_MAX"
    using offset_of_le_total [of vecs i] assms(1) by simp
  then show ?thesis
    using assms(2) by (simp add: vec_at_def positions_push_all size_t_to_int_small)
qed

lemma get_slice_push_all:
  assumes n: "length vecs \<le> INT_MAX" and t: "length (concat vecs) \<le> INT_MAX"
    and i: "i < length vecs"
  shows "get_slice (push_all vecs empty_pool) (int i)
    = Inr \<lparr>first_it = int (offset_of vecs i), last_it = int (offset_of vecs (Suc i))\<rparr>"
proof (cases "Suc i = length vecs")
  case True
  then have "offset_of vecs (Suc i) = length (concat vecs)"
    by (simp add: offset_of_def)
  moreover have "int i = int (length vecs) - 1"
    using True by simp
  ultimately show ?thesis
    using position_push_all [OF t i] offset_of_le_total [of vecs i]
    by (simp add: get_slice_def size_pool_push_all [OF n] iter_plus_def data_push_all)
next
  case False
  then have s: "Suc i < length vecs" using i by simp
  have "int i \<noteq> int (length vecs) - 1" using False by auto
  then show ?thesis
    using position_push_all [OF t i] position_push_all [OF t s]
      offset_of_le_total [of vecs i] offset_of_le_total [of vecs "Suc i"]
    by (simp add: get_slice_def size_pool_push_all [OF n] iter_plus_def data_push_all
        add.commute)
qed

lemma get_slice_outside:
  assumes "index < 0 \<or> int (length vecs) \<le> index"
  shows "get_slice (push_all vecs empty_pool) index = Inl Out_of_bounds"
  using assms by (auto simp add: get_slice_def vec_at_def positions_push_all)

subsection \<open>Round trip\<close>

text \<open>
  Claim C6, as the code has it. The offsets and the length of the store are C++ \<open>int\<close>s.
  When at most \<open>INT_MAX\<close> vectors holding at most \<open>INT_MAX\<close> elements in total were pushed
  in order into an empty store, \<open>size()\<close> is the number of pushes and, for every index
  \<open>i\<close> below it, \<open>get_slice(i)\<close> on the store as it is after all the pushes delimits
  exactly the elements of the vector pushed as number \<open>i\<close>, in their order.
\<close>

theorem array_pool_round_trip:
  assumes "length vecs \<le> INT_MAX" and "length (concat vecs) \<le> INT_MAX"
  shows "size_pool (push_all vecs empty_pool) = int (length vecs) \<and>
         (\<forall>i < length vecs. \<exists>s. get_slice (push_all vecs empty_pool) (int i) = Inr s
              \<and> slice_elems (push_all vecs empty_pool) s = vecs ! i)"
  using assms
  by (simp add: size_pool_push_all get_slice_push_all slice_elems_def data_push_all
      offset_of_Suc slice_of_concat)

theorem array_pool_round_trip_witness:
  "length [[1, 2], [], [3::nat]] \<le> INT_MAX \<and> length (concat [[1, 2], [], [3::nat]]) \<le> INT_MAX \<and>
   size_pool (push_all [[1, 2], [], [3::nat]] empty_pool) = 3 \<and>
   get_slice (push_all [[1, 2], [], [3::nat]] empty_pool) 0 = Inr \<lparr>first_it = 0, last_it = 2\<rparr> \<and>
   slice_elems (push_all [[1, 2], [], [3::nat]] empty_pool) \<lparr>first_it = 0, last_it = 2\<rparr> = [1, 2]"
  using array_pool_round_trip [of "[[1, 2], [], [3::nat]]"]
  by (simp add: INT_MAX_def push_all_def push_back_def empty_pool_def get_slice_def
      vec_at_def iter_plus_def size_pool_def size_t_to_int_def slice_elems_def)

text \<open>
  Without the bound the round trip fails: after a vector of \<open>2^31\<close> elements the offset
  stored for the next vector is \<open>-2^31\<close>, and \<open>get_slice(1)\<close> moves an iterator in front
  of the backing storage.
\<close>

theorem array_pool_round_trip_counterexample:
  "size_pool (push_all [replicate 2147483648 (0::nat), [1]] empty_pool) = 2 \<and>
   get_slice (push_all [replicate 2147483648 (0::nat), [1]] empty_pool) 1 = Inl Out_of_bounds"
  by (simp add: push_all_def push_back_def empty_pool_def size_pool_def get_slice_def
      vec_at_def iter_plus_def size_t_to_int_def)

subsection \<open>Indices in and out of range\<close>

text \<open>
  Claim C8, as the code has it. \<open>get_slice\<close> checks nothing. On a store built by at most
  \<open>INT_MAX\<close> pushes of at most \<open>INT_MAX\<close> elements in total, an index outside
  \<open>[0, size())\<close> reads the vector of offsets out of range (undefined behaviour, no
  assertion fails), and for an index inside \<open>[0, size())\<close> every access is in range: the
  slice returned lies inside the backing storage, its start not after its end.
\<close>

theorem get_slice_bounds:
  assumes "length vecs \<le> INT_MAX" and "length (concat vecs) \<le> INT_MAX"
  shows "(\<forall>index. index < 0 \<or> size_pool (push_all vecs empty_pool) \<le> index \<longrightarrow>
            get_slice (push_all vecs empty_pool) index = Inl Out_of_bounds) \<and>
         (\<forall>index. 0 \<le> index \<and> index < size_pool (push_all vecs empty_pool) \<longrightarrow>
            (\<exists>s. get_slice (push_all vecs empty_pool) index = Inr s \<and> 0 \<le> first_it s
               \<and> first_it s \<le> last_it s
               \<and> last_it s \<le> int (length (data (push_all vecs empty_pool)))))"
proof (intro conjI allI impI)
  fix index
  assume "index < 0 \<or> size_pool (push_all vecs empty_pool) \<le> index"
  then show "get_slice (push_all vecs empty_pool) index = Inl Out_of_bounds"
    using assms(1) by (simp add: size_pool_push_all get_slice_outside)
next
  fix index
  assume "0 \<le> index \<and> index < size_pool (push_all vecs empty_pool)"
  then obtain i where i: "index = int i" "i < length vecs"
    using assms(1) by (metis size_pool_push_all nat_less_iff int_nat_eq)
  show "\<exists>s. get_slice (push_all vecs empty_pool) index = Inr s \<and> 0 \<le> first_it s
               \<and> first_it s \<le> last_it s
               \<and> last_it s \<le> int (length (data (push_all vecs empty_pool)))"
    using i get_slice_push_all [OF assms i(2)] offset_of_mono [of i "Suc i" vecs]
      offset_of_le_total [of vecs "Suc i"]
    by (simp add: data_push_all)
qed

theorem get_slice_bounds_witness:
  "length [[5, 7::nat], [9]] \<le> INT_MAX \<and> length (concat [[5, 7::nat], [9]]) \<le> INT_MAX \<and>
   get_slice (push_all [[5, 7::nat], [9]] empty_pool) 2 = Inl Out_of_bounds \<and>
   get_slice (push_all [[5, 7::nat], [9]] empty_pool) (- 1) = Inl Out_of_bounds \<and>
   get_slice (push_all [[5, 7::nat], [9]] empty_pool) 1 = Inr \<lparr>first_it = 2, last_it = 3\<rparr>"
  using get_slice_bounds [of "[[5, 7::nat], [9]]"]
  by (simp add: INT_MAX_def push_all_def push_back_def empty_pool_def get_slice_def
      vec_at_def iter_plus_def size_pool_def size_t_to_int_def)

text \<open>An index equal to \<open>size()\<close>: the read is out of range, and no assertion fails.\<close>

theorem get_slice_bounds_counterexample:
  "get_slice (push_back [5, 7::nat] empty_pool) 1 = Inl Out_of_bounds \<and>
   get_slice (push_back [5, 7::nat] empty_pool) 1 \<noteq> Inl Assertion_failed"
  by (simp add: push_back_def empty_pool_def get_slice_def vec_at_def)

section \<open>Properties of the panel sampler\<close>

lemma sample_loop_prefix:
  "\<exists>more. fst (sample_loop E n h d tm samples w) = samples @ more"
proof (induction E n h d tm samples w rule: sample_loop.induct)
  case (1 E n h d tm samples w)
  obtain ex w1 where e: "is_expired E tm w = (ex, w1)"
    by (cases "is_expired E tm w")
  obtain s w2 where s: "sample_state E h d w1 = (s, w2)"
    by (cases "sample_state E h d w1")
  show ?case
  proof (cases "int (length samples) < n \<and> \<not> ex")
    case True
    then have "\<exists>more. fst (sample_loop E n h d tm (samples @ [get_abstract_state_ids E s]) w2)
        = (samples @ [get_abstract_state_ids E s]) @ more"
      using "1.IH" [OF _ refl e [symmetric] _ refl s [symmetric]] by simp
    then show ?thesis
      using True e s by (subst sample_loop.simps) auto
  next
    case False
    then show ?thesis
      using e by (subst sample_loop.simps) auto
  qed
qed

lemma sample_loop_length:
  "int (length samples) \<le> max n 1 \<Longrightarrow>
     int (length (fst (sample_loop E n h d tm samples w))) \<le> max n 1"
proof (induction E n h d tm samples w rule: sample_loop.induct)
  case (1 E n h d tm samples w)
  obtain ex w1 where e: "is_expired E tm w = (ex, w1)"
    by (cases "is_expired E tm w")
  obtain s w2 where s: "sample_state E h d w1 = (s, w2)"
    by (cases "sample_state E h d w1")
  show ?case
  proof (cases "int (length samples) < n \<and> \<not> ex")
    case True
    then have "int (length (fst (sample_loop E n h d tm
        (samples @ [get_abstract_state_ids E s]) w2))) \<le> max n 1"
      using "1.IH" [OF _ refl e [symmetric] _ refl s [symmetric]] by simp
    then show ?thesis
      using True e s by (subst sample_loop.simps) auto
  next
    case False
    then show ?thesis
      using e "1.prems" by (subst sample_loop.simps) auto
  qed
qed

text \<open>
  Claim C9. When \<open>num_samples\<close> is at least 1, the call passes its assertion and returns
  a list of vectors of abstract state ids that is not empty, has at most \<open>num_samples\<close>
  entries and starts with the abstract state ids of the initial state. This holds for
  every sampling time budget and every clock, so also when the budget is zero or negative
  and the timer has expired when the call starts.
\<close>

theorem sample_panel:
  assumes "1 \<le> n"
  shows "\<exists>samples w1.
           sample_states_and_return_abstract_state_ids E n h d max_sampling_time w
             = Inr (samples, w1)
         \<and> samples \<noteq> [] \<and> int (length samples) \<le> n
         \<and> hd samples = get_abstract_state_ids E (get_initial_state E)"
proof -
  obtain tm w0 where tm: "new_CountdownTimer E max_sampling_time w = (tm, w0)"
    by (cases "new_CountdownTimer E max_sampling_time w")
  let ?init = "[get_abstract_state_ids E (get_initial_state E)]"
  obtain samples w1 where r: "sample_loop E n h d tm ?init w0 = (samples, w1)"
    by (cases "sample_loop E n h d tm ?init w0")
  obtain more where m: "samples = ?init @ more"
    using sample_loop_prefix [of E n h d tm ?init w0] r by auto
  have "int (length samples) \<le> max n 1"
    using sample_loop_length [of ?init n E h d tm w0] r assms by simp
  then have "int (length samples) \<le> n"
    using assms by simp
  then show ?thesis
    using assms tm r m by (simp add: sample_states_and_return_abstract_state_ids_def)
qed

text \<open>
  The sampler with a time budget of zero: the timer has expired at the first test, and
  the panel is the initial state alone.
\<close>

theorem sample_panel_witness:
  "(1::int) \<le> 2 \<and>
   sample_states_and_return_abstract_state_ids demo_collaborators 2 4 (\<lambda>s. False) 0 0
     = Inr ([[0, 0, 0]], 2)"
  using sample_panel [of 2 demo_collaborators 4 "\<lambda>s. False" 0 0]
  by (simp add: sample_states_and_return_abstract_state_ids_def demo_collaborators_def
      new_CountdownTimer_def is_expired_def)

section \<open>Properties of the order completion\<close>

lemma append_unused_invariant:
  "used = set order \<Longrightarrow> distinct order \<Longrightarrow>
     fst (append_unused ids (used, order)) = set (snd (append_unused ids (used, order)))
   \<and> distinct (snd (append_unused ids (used, order)))
   \<and> set (snd (append_unused ids (used, order))) = set order \<union> set ids
   \<and> prefix order (snd (append_unused ids (used, order)))"
proof (induction ids arbitrary: used order)
  case Nil
  then show ?case by simp
next
  case (Cons a ids)
  show ?case
  proof (cases "a \<in> used")
    case True
    then show ?thesis
      using Cons.IH [of used order] Cons.prems by auto
  next
    case False
    have ih: "fst (append_unused ids (insert a used, order @ [a]))
          = set (snd (append_unused ids (insert a used, order @ [a])))
        \<and> distinct (snd (append_unused ids (insert a used, order @ [a])))
        \<and> set (snd (append_unused ids (insert a used, order @ [a])))
          = set (order @ [a]) \<union> set ids
        \<and> prefix (order @ [a]) (snd (append_unused ids (insert a used, order @ [a])))"
      using False Cons.prems by (intro Cons.IH) auto
    then have "prefix order (snd (append_unused ids (insert a used, order @ [a])))"
      using append_prefixD by blast
    then show ?thesis
      using False ih by auto
  qed
qed

text \<open>
  Claim C7. The systematic phase passes to the cp function the order that
  \<open>complete_order\<close> makes from a systematic order. When the systematic order has no
  duplicates and only indices below the number of abstractions, and the shuffle of the
  random number generator returns the elements it was given, the completed order has no
  duplicates, contains exactly the indices \<open>0, \<dots>, n - 1\<close> of the \<open>n\<close> abstractions (so it
  has \<open>n\<close> entries, each index once), and starts with the systematic order.
\<close>

theorem completed_order_bijection:
  assumes "set (fst (shuffle E (get_default_order (num_abstractions E)) w))
             = set (get_default_order (num_abstractions E))"
    and "distinct sys_order"
    and "set sys_order \<subseteq> {0..<int (num_abstractions E)}"
  shows "distinct (fst (complete_order E sys_order w))
       \<and> set (fst (complete_order E sys_order w)) = {0..<int (num_abstractions E)}
       \<and> length (fst (complete_order E sys_order w)) = num_abstractions E
       \<and> prefix sys_order (fst (complete_order E sys_order w))"
proof -
  obtain ids w1 where sh: "shuffle E (get_default_order (num_abstractions E)) w = (ids, w1)"
    by (cases "shuffle E (get_default_order (num_abstractions E)) w")
  let ?order = "snd (append_unused ids (set sys_order, sys_order))"
  have co: "fst (complete_order E sys_order w) = ?order"
    using sh by (simp add: complete_order_def)
  have d: "set (get_default_order (num_abstractions E)) = {0..<int (num_abstractions E)}"
  proof -
    have "int ` {0..<num_abstractions E} = {0..<int (num_abstractions E)}"
      by (simp add: image_int_atLeastLessThan)
    then show ?thesis
      by (simp add: get_default_order_def)
  qed
  have inv: "distinct ?order \<and> set ?order = set sys_order \<union> set ids \<and> prefix sys_order ?order"
    using append_unused_invariant [of "set sys_order" sys_order ids] assms(2) by simp
  have s: "set ?order = {0..<int (num_abstractions E)}"
    using inv assms(1,3) sh d by auto
  have "distinct ?order"
    using inv by blast
  then have "length ?order = card (set ?order)"
    by (rule distinct_card [symmetric])
  then have "length ?order = num_abstractions E"
    using s by simp
  then show ?thesis
    using co inv s by simp
qed

theorem completed_order_bijection_witness:
  "set (fst (shuffle demo_collaborators (get_default_order (num_abstractions demo_collaborators)) 0))
     = set (get_default_order (num_abstractions demo_collaborators))
   \<and> distinct [1::int] \<and> set [1] \<subseteq> {0..<int (num_abstractions demo_collaborators)}
   \<and> fst (complete_order demo_collaborators [1] 0) = [1, 2, 0]"
proof -
  have n: "num_abstractions demo_collaborators = 3"
    by (simp add: demo_collaborators_def)
  have d: "get_default_order 3 = [0, 1, 2]"
    by (simp add: get_default_order_def upt_rec)
  have s: "shuffle demo_collaborators [0, 1, 2] 0 = ([2, 1, 0], 1)"
    by (simp add: demo_collaborators_def)
  have h1: "set (fst (shuffle demo_collaborators
      (get_default_order (num_abstractions demo_collaborators)) 0))
     = set (get_default_order (num_abstractions demo_collaborators))"
    by (auto simp add: n d s)
  have h2: "distinct [1::int]" by simp
  have h3: "set [1] \<subseteq> {0..<int (num_abstractions demo_collaborators)}"
    by (simp add: n)
  have r: "fst (complete_order demo_collaborators [1] 0) = [1, 2, 0]"
    by (simp add: complete_order_def n d s)
  show ?thesis
    using completed_order_bijection [OF h1 h2 h3] h1 h3 r by simp
qed

section \<open>Properties of the two loops of the generator\<close>

subsection \<open>The loop over the systematic orders\<close>

lemma systematic_loop_break:
  assumes "is_expired E tm (world st) = (expired, w1)"
    and "expired \<and> cp_heuristics st \<noteq> []"
  shows "systematic_loop E f costs ids tm (sys_order # rest) st = st\<lparr>world := w1\<rparr>"
  by (simp add: assms)

lemma systematic_loop_step:
  assumes "is_expired E tm (world st) = (expired, w1)"
    and "\<not> (expired \<and> cp_heuristics st \<noteq> [])"
    and "complete_order E sys_order w1 = (order, w2)"
    and "f order costs ids = (cp, rc)"
    and "diverse_or_no_diversifier E (diversifier st) cp = (diverse, dv)"
  shows "systematic_loop E f costs ids tm (sys_order # rest) st
        = systematic_loop E f costs ids tm rest
            (st\<lparr>cp_heuristics :=
                   (if diverse then cp_heuristics st @ [cp] else cp_heuristics st),
                diversifier := dv, world := w2\<rparr>)"
  by (simp add: assms)
lemma systematic_loop_effect:
  "systematic_effect st (length orders) (systematic_loop E f costs ids tm orders st)"
proof (induction orders arbitrary: st)
  case Nil
  show ?case by (simp add: systematic_effect_def)
next
  case (Cons sys_order rest)
  obtain expired w1 where e: "is_expired E tm (world st) = (expired, w1)"
    by (cases "is_expired E tm (world st)")
  show ?case
  proof (cases "expired \<and> cp_heuristics st \<noteq> []")
    case True
    show ?thesis
      unfolding systematic_loop_break [OF e True]
      by (simp add: systematic_effect_def)
  next
    case False
    obtain order w2 where o: "complete_order E sys_order w1 = (order, w2)"
      by (cases "complete_order E sys_order w1")
    obtain cp rc where c: "f order costs ids = (cp, rc)"
      by (cases "f order costs ids")
    obtain diverse dv where d: "diverse_or_no_diversifier E (diversifier st) cp = (diverse, dv)"
      by (cases "diverse_or_no_diversifier E (diversifier st) cp")
    let ?st1 = "st\<lparr>cp_heuristics :=
                        (if diverse then cp_heuristics st @ [cp] else cp_heuristics st),
                     diversifier := dv, world := w2\<rparr>"
    have dvn: "diversifier st = None \<Longrightarrow> dv = None"
      using d by (simp add: diverse_or_no_diversifier_def)
    have ih: "systematic_effect ?st1 (length rest) (systematic_loop E f costs ids tm rest ?st1)"
      by (rule Cons.IH)
    show ?thesis
      unfolding systematic_loop_step [where f = f and costs = costs and ids = ids, OF e False o c d]
      using ih dvn by (cases diverse) (auto simp add: systematic_effect_def)
  qed
qed

subsection \<open>The sampling loop\<close>

text \<open>An induction rule for the runs of the loop that return.\<close>

lemma sampling_loop_rule:
  assumes run: "sampling_loop E opts costs f iv st = Some y"
    and stop: "\<And>st st1. sampling_condition E opts (timer iv) st = (False, st1) \<Longrightarrow> P st st1"
    and step: "\<And>st st1 y. sampling_condition E opts (timer iv) st = (True, st1) \<Longrightarrow>
                 P (sampling_body E opts costs f iv st1) y \<Longrightarrow> P st y"
  shows "P st y"
proof -
  have "E = E \<and> opts = opts \<and> costs = costs \<and> f = f \<and> iv = iv \<longrightarrow> P st y"
  proof (rule sampling_loop.raw_induct
      [where P = "\<lambda>E1 opts1 costs1 f1 iv1 st y.
         E1 = E \<and> opts1 = opts \<and> costs1 = costs \<and> f1 = f \<and> iv1 = iv \<longrightarrow> P st y",
       OF _ run])
    fix loop E2 opts2 costs2 f2 iv2 st2 y2
    assume IH: "\<And>E1 opts1 costs1 f1 iv1 st y. loop E1 opts1 costs1 f1 iv1 st = Some y \<Longrightarrow>
         E1 = E \<and> opts1 = opts \<and> costs1 = costs \<and> f1 = f \<and> iv1 = iv \<longrightarrow> P st y"
      and hyp: "(let (continue, st1) = sampling_condition E2 opts2 (timer iv2) st2
          in if continue
             then loop E2 opts2 costs2 f2 iv2 (sampling_body E2 opts2 costs2 f2 iv2 st1)
             else Some st1) = Some y2"
    show "E2 = E \<and> opts2 = opts \<and> costs2 = costs \<and> f2 = f \<and> iv2 = iv \<longrightarrow> P st2 y2"
    proof
      assume eq: "E2 = E \<and> opts2 = opts \<and> costs2 = costs \<and> f2 = f \<and> iv2 = iv"
      obtain c st1 where c: "sampling_condition E opts (timer iv) st2 = (c, st1)"
        by (cases "sampling_condition E opts (timer iv) st2")
      show "P st2 y2"
      proof (cases c)
        case True
        then have "loop E opts costs f iv (sampling_body E opts costs f iv st1) = Some y2"
          using hyp eq c by simp
        then have "P (sampling_body E opts costs f iv st1) y2"
          using IH by simp
        moreover have "sampling_condition E opts (timer iv) st2 = (True, st1)"
          using c True by simp
        ultimately show ?thesis
          by (rule step [rotated])
      next
        case False
        then have "y2 = st1"
          using hyp eq c by simp
        moreover have "sampling_condition E opts (timer iv) st2 = (False, st1)"
          using c False by simp
        ultimately show ?thesis
          using stop by simp
      qed
    qed
  qed
  then show ?thesis
    by simp
qed

lemma sampling_condition_state:
  "sampling_condition E opts tm st = (c, st1) \<Longrightarrow>
     cp_heuristics st1 = cp_heuristics st \<and> size_kb st1 = size_kb st
   \<and> evaluated_orders st1 = evaluated_orders st \<and> diversifier st1 = diversifier st"
  by (auto simp add: sampling_condition_def Let_def split: if_splits prod.splits)

lemma sampling_condition_True:
  "sampling_condition E opts tm st = (True, st1) \<Longrightarrow>
     int (length (cp_heuristics st)) < max_orders opts \<and> size_kb st < max_size_kb opts"
  by (auto simp add: sampling_condition_def Let_def split: if_splits prod.splits)

lemma sampling_condition_False:
  "sampling_condition E opts tm st = (False, st1) \<Longrightarrow> cp_heuristics st = [] \<Longrightarrow>
     \<not> (1 \<le> max_orders opts \<and> size_kb st < max_size_kb opts)"
  by (auto simp add: sampling_condition_def Let_def split: if_splits prod.splits)

lemma sampling_body_cases:
  "(cp_heuristics (sampling_body E opts costs f iv st) = cp_heuristics st
      \<and> size_kb (sampling_body E opts costs f iv st) = size_kb st
      \<and> diversifier st \<noteq> None)
   \<or> (\<exists>c. cp_heuristics (sampling_body E opts costs f iv st) = cp_heuristics st @ [c]
      \<and> size_kb (sampling_body E opts costs f iv st) = add_size E (size_kb st) c)"
  by (auto simp add: sampling_body_def diverse_or_no_diversifier_def Let_def
      split: prod.splits option.splits)

lemma sampling_body_no_diversifier:
  "diversifier st = None \<Longrightarrow> diversifier (sampling_body E opts costs f iv st) = None"
  by (auto simp add: sampling_body_def diverse_or_no_diversifier_def Let_def
      split: prod.splits option.splits)

lemma wrap_int_in_range:
  "- 2147483648 \<le> x \<Longrightarrow> x \<le> 2147483647 \<Longrightarrow> wrap_int x = x"
  unfolding wrap_int_def by (simp add: sint_sbintrunc' signed_take_bit_int_eq_self)

lemma wrap_int_add_left: "wrap_int (wrap_int a + b) = wrap_int (a + b)"
  unfolding wrap_int_def by simp

lemma foldl_add_size:
  "foldl (add_size E) (wrap_int a) adm
     = wrap_int (a + sum_list (map (estimate_size_in_kb E) adm))"
proof (induction adm arbitrary: a)
  case Nil
  show ?case by simp
next
  case (Cons c adm)
  have "add_size E (wrap_int a) c = wrap_int (a + estimate_size_in_kb E c)"
    by (simp add: add_size_def wrap_int_add_left)
  then show ?case
    using Cons.IH [of "a + estimate_size_in_kb E c"] by (simp add: add.assoc)
qed

lemma accumulated_size_wrap:
  "accumulated_size E adm = wrap_int (sum_list (map (estimate_size_in_kb E) adm))"
proof -
  have "wrap_int 0 = 0"
    by (simp add: wrap_int_in_range)
  then show ?thesis
    using foldl_add_size [of E 0 adm] by (simp add: accumulated_size_def)
qed

lemma accumulated_size_exact:
  assumes "\<forall>c \<in> set adm. 0 \<le> estimate_size_in_kb E c"
    and "sum_list (map (estimate_size_in_kb E) adm) \<le> int INT_MAX"
  shows "accumulated_size E adm = sum_list (map (estimate_size_in_kb E) adm)"
proof -
  have "0 \<le> sum_list (map (estimate_size_in_kb E) adm)"
    using assms(1) by (intro sum_list_nonneg) auto
  then show ?thesis
    using assms(2) by (simp add: accumulated_size_wrap wrap_int_in_range INT_MAX_def)
qed

lemma sampling_loop_effect:
  assumes "sampling_loop E opts costs f iv st = Some y"
  shows "sampling_effect E opts st y"
  using assms
proof (rule sampling_loop_rule)
  fix st st1 :: "('a, 'b, 'c) gen_state"
  assume "sampling_condition E opts (timer iv) st = (False, st1)"
  then show "sampling_effect E opts st st1"
    using sampling_condition_state [of E opts "timer iv" st False st1]
    by (simp add: sampling_effect_def)
next
  fix st st1 y :: "('a, 'b, 'c) gen_state"
  assume c: "sampling_condition E opts (timer iv) st = (True, st1)"
    and ih: "sampling_effect E opts (sampling_body E opts costs f iv st1) y"
  let ?b = "sampling_body E opts costs f iv st1"
  obtain adm where adm: "cp_heuristics y = cp_heuristics ?b @ adm"
    "size_kb y = foldl (add_size E) (size_kb ?b) adm"
    "adm = [] \<or> foldl (add_size E) (size_kb ?b) (butlast adm) < max_size_kb opts"
    using ih unfolding sampling_effect_def by (elim exE conjE)
  have s: "cp_heuristics st1 = cp_heuristics st" "size_kb st1 = size_kb st"
    using sampling_condition_state [OF c] by simp_all
  have lt: "size_kb st < max_size_kb opts"
    using sampling_condition_True [OF c] by simp
  from sampling_body_cases [of E opts costs f iv st1]
  show "sampling_effect E opts st y"
  proof
    assume "cp_heuristics ?b = cp_heuristics st1 \<and> size_kb ?b = size_kb st1
      \<and> diversifier st1 \<noteq> None"
    then show ?thesis
      using adm s unfolding sampling_effect_def by (intro exI [of _ adm]) simp
  next
    assume "\<exists>c. cp_heuristics ?b = cp_heuristics st1 @ [c]
      \<and> size_kb ?b = add_size E (size_kb st1) c"
    then obtain c where c: "cp_heuristics ?b = cp_heuristics st1 @ [c]"
      "size_kb ?b = add_size E (size_kb st1) c"
      by (elim exE conjE)
    show ?thesis
      unfolding sampling_effect_def
      using adm s c lt by (intro exI [of _ "c # adm"]) auto
  qed
qed

lemma sampling_loop_count:
  assumes "sampling_loop E opts costs f iv st = Some y"
  shows "int (length (cp_heuristics y)) \<le> max (max_orders opts) (int (length (cp_heuristics st)))"
  using assms
proof (rule sampling_loop_rule)
  fix st st1 :: "('a, 'b, 'c) gen_state"
  assume "sampling_condition E opts (timer iv) st = (False, st1)"
  then show "int (length (cp_heuristics st1))
      \<le> max (max_orders opts) (int (length (cp_heuristics st)))"
    using sampling_condition_state [of E opts "timer iv" st False st1] by simp
next
  fix st st1 y :: "('a, 'b, 'c) gen_state"
  assume c: "sampling_condition E opts (timer iv) st = (True, st1)"
    and ih: "int (length (cp_heuristics y)) \<le> max (max_orders opts)
       (int (length (cp_heuristics (sampling_body E opts costs f iv st1))))"
  have "int (length (cp_heuristics (sampling_body E opts costs f iv st1))) \<le> max_orders opts"
    using sampling_body_cases [of E opts costs f iv st1] sampling_condition_state [OF c]
      sampling_condition_True [OF c] by auto
  then show "int (length (cp_heuristics y))
      \<le> max (max_orders opts) (int (length (cp_heuristics st)))"
    using ih by simp
qed

lemma sampling_loop_not_empty:
  assumes "sampling_loop E opts costs f iv st = Some y"
  shows "1 \<le> max_orders opts \<longrightarrow> 1 \<le> max_size_kb opts \<longrightarrow>
         (cp_heuristics st = [] \<longrightarrow> size_kb st = 0) \<longrightarrow> cp_heuristics y \<noteq> []"
  using assms
proof (rule sampling_loop_rule)
  fix st st1 :: "('a, 'b, 'c) gen_state"
  assume "sampling_condition E opts (timer iv) st = (False, st1)"
  then show "1 \<le> max_orders opts \<longrightarrow> 1 \<le> max_size_kb opts \<longrightarrow>
         (cp_heuristics st = [] \<longrightarrow> size_kb st = 0) \<longrightarrow> cp_heuristics st1 \<noteq> []"
    using sampling_condition_state [of E opts "timer iv" st False st1]
      sampling_condition_False [of E opts "timer iv" st st1] by auto
next
  fix st st1 y :: "('a, 'b, 'c) gen_state"
  assume c: "sampling_condition E opts (timer iv) st = (True, st1)"
    and ih: "1 \<le> max_orders opts \<longrightarrow> 1 \<le> max_size_kb opts \<longrightarrow>
         (cp_heuristics (sampling_body E opts costs f iv st1) = [] \<longrightarrow>
            size_kb (sampling_body E opts costs f iv st1) = 0) \<longrightarrow> cp_heuristics y \<noteq> []"
  show "1 \<le> max_orders opts \<longrightarrow> 1 \<le> max_size_kb opts \<longrightarrow>
         (cp_heuristics st = [] \<longrightarrow> size_kb st = 0) \<longrightarrow> cp_heuristics y \<noteq> []"
    using ih sampling_body_cases [of E opts costs f iv st1] sampling_condition_state [OF c]
    by auto
qed

lemma sampling_loop_terminates:
  "diversifier st = None \<Longrightarrow> \<exists>y. sampling_loop E opts costs f iv st = Some y"
proof (induction "nat (max_orders opts - int (length (cp_heuristics st)))" arbitrary: st
    rule: less_induct)
  case less
  obtain c st1 where c: "sampling_condition E opts (timer iv) st = (c, st1)"
    by (cases "sampling_condition E opts (timer iv) st")
  show ?case
  proof (cases c)
    case False
    then show ?thesis
      using c by (subst sampling_loop.simps) simp
  next
    case True
    let ?b = "sampling_body E opts costs f iv st1"
    have s: "cp_heuristics st1 = cp_heuristics st" "diversifier st1 = None"
      using sampling_condition_state [OF c] less.prems by simp_all
    have lt: "int (length (cp_heuristics st)) < max_orders opts"
      using sampling_condition_True [of E opts "timer iv" st st1] c True by simp
    have "length (cp_heuristics ?b) = Suc (length (cp_heuristics st))"
      using sampling_body_cases [of E opts costs f iv st1] s by auto
    then have "nat (max_orders opts - int (length (cp_heuristics ?b)))
        < nat (max_orders opts - int (length (cp_heuristics st)))"
      using lt by simp
    moreover have "diversifier ?b = None"
      using s by (simp add: sampling_body_no_diversifier)
    ultimately have "\<exists>y. sampling_loop E opts costs f iv ?b = Some y"
      by (rule less.hyps)
    then show ?thesis
      using c True by (subst sampling_loop.simps) simp
  qed
qed

subsection \<open>The phases and the whole function\<close>

lemma systematic_phase_effect:
  "(\<exists>adm. cp_heuristics (systematic_phase E costs f iv dv w) = adm
       \<and> length adm \<le> length (systematic_generator_orders_hacked E))
   \<and> size_kb (systematic_phase E costs f iv dv w) = 0
   \<and> evaluated_orders (systematic_phase E costs f iv dv w) = 0
   \<and> (dv = None \<longrightarrow> diversifier (systematic_phase E costs f iv dv w) = None)"
  using systematic_loop_effect [of "\<lparr>cp_heuristics = [], evaluated_orders = 0, size_kb = 0,
      diversifier = dv, world = w\<rparr>" "systematic_generator_orders_hacked E" E f costs
      "abstract_state_ids_for_init iv" "timer iv"]
  by (simp add: systematic_phase_def systematic_effect_def)

lemma generate_phases_terminates:
  "\<exists>st. generate_phases E opts costs f iv None w = Some st"
  unfolding generate_phases_def
  using systematic_phase_effect [of E costs f iv None w]
  by (intro sampling_loop_terminates) simp

lemma generate_phases_not_empty:
  assumes "generate_phases E opts costs f iv dv w = Some st"
    and "1 \<le> max_orders opts" and "1 \<le> max_size_kb opts"
  shows "cp_heuristics st \<noteq> []"
  using sampling_loop_not_empty [OF assms(1) [unfolded generate_phases_def]] assms(2,3)
    systematic_phase_effect [of E costs f iv dv w]
  by simp

lemma generate_phases_count:
  assumes "generate_phases E opts costs f iv dv w = Some st"
  shows "int (length (cp_heuristics st))
     \<le> max (max_orders opts) (int (length (systematic_generator_orders_hacked E)))"
  using sampling_loop_count [OF assms(1) [unfolded generate_phases_def]]
    systematic_phase_effect [of E costs f iv dv w]
  by auto

lemma generate_Some:
  assumes "generate_cost_partitionings E opts costs f w = Some (Inr (pl, w1))"
    and "init_h (fst (initial_partition E opts costs f w)) \<noteq> INF_value E"
  shows "\<exists>dv w2 st. generate_phases E opts costs f (fst (initial_partition E opts costs f w)) dv w2
            = Some st \<and> pl = cp_heuristics st"
  using assms
  by (auto simp add: generate_cost_partitionings_def split: prod.splits sum.splits option.splits)


lemma generate_unsolvable:
  assumes "init_h (fst (initial_partition E opts costs f w)) = INF_value E"
  shows "generate_cost_partitionings E opts costs f w
    = Some (Inr ([cp_for_init (fst (initial_partition E opts costs f w))],
                 snd (initial_partition E opts costs f w)))"
  using assms
  by (simp add: generate_cost_partitionings_def case_prod_unfold Let_def)

lemma generate_returns:
  assumes "\<not> diversify opts"
  shows "\<exists>pl w1. generate_cost_partitionings E opts costs f w = Some (Inr (pl, w1))"
proof (cases "init_h (fst (initial_partition E opts costs f w)) = INF_value E")
  case True
  show ?thesis
    using generate_unsolvable [OF True] by simp
next
  case False
  obtain st where "generate_phases E opts costs f (fst (initial_partition E opts costs f w))
      None (snd (initial_partition E opts costs f w)) = Some st"
    using generate_phases_terminates
      [of E opts costs f "fst (initial_partition E opts costs f w)"
        "snd (initial_partition E opts costs f w)"]
    by (elim exE)
  then show ?thesis
    using False assms
    by (simp add: generate_cost_partitionings_def make_diversifier_def case_prod_unfold Let_def)
qed
lemma init_values_of_initial_partition:
  "abstract_state_ids_for_init (fst (initial_partition E opts costs f w))
      = get_abstract_state_ids E (get_initial_state E)
   \<and> cp_for_init (fst (initial_partition E opts costs f w))
      = fst (f (order_for_init (fst (initial_partition E opts costs f w))) costs
               (get_abstract_state_ids E (get_initial_state E)))
   \<and> init_h (fst (initial_partition E opts costs f w))
      = cp_compute_heuristic E (cp_for_init (fst (initial_partition E opts costs f w)))
          (get_abstract_state_ids E (get_initial_state E))
   \<and> snd (initial_partition E opts costs f w)
      = snd (compute_order_for_state E (get_abstract_state_ids E (get_initial_state E)) True
               (initialize E costs (snd (read_clock E w))))"
  by (simp add: initial_partition_def new_CountdownTimer_def case_prod_unfold Let_def)

section \<open>Properties of generate\_cost\_partitionings\<close>

text \<open>
  Claim C1, as the code has it. The test of the sampling loop lets the first iteration
  run when the time is up (\<open>!timer.is_expired() || cp_heuristics.empty()\<close>), but not when
  the count or the size budget is zero. For every input, every time budget (zero at call
  time included) and every clock: when \<open>max_orders\<close> and \<open>max_size_kb\<close> are at least 1,
  every vector of partitions that \<open>generate_cost_partitionings\<close> returns is not empty;
  and with diversification off the function does return one.
\<close>

theorem pool_not_empty:
  assumes "1 \<le> max_orders opts" and "1 \<le> max_size_kb opts"
  shows "(\<forall>pl w1. generate_cost_partitionings E opts costs f w = Some (Inr (pl, w1))
            \<longrightarrow> pl \<noteq> [])
       \<and> (\<not> diversify opts \<longrightarrow>
            (\<exists>pl w1. generate_cost_partitionings E opts costs f w = Some (Inr (pl, w1))))"
proof (intro conjI allI impI)
  fix pl w1
  assume r: "generate_cost_partitionings E opts costs f w = Some (Inr (pl, w1))"
  show "pl \<noteq> []"
  proof (cases "init_h (fst (initial_partition E opts costs f w)) = INF_value E")
    case True
    then show ?thesis
      using r generate_unsolvable [OF True] by auto
  next
    case False
    obtain dv w2 st where st: "generate_phases E opts costs f
        (fst (initial_partition E opts costs f w)) dv w2 = Some st" "pl = cp_heuristics st"
      using generate_Some [OF r False] by (elim exE conjE)
    show ?thesis
      using generate_phases_not_empty [OF st(1) assms] st(2) by simp
  qed
next
  assume "\<not> diversify opts"
  then show "\<exists>pl w1. generate_cost_partitionings E opts costs f w = Some (Inr (pl, w1))"
    by (rule generate_returns)
qed

text \<open>
  A time budget of zero, no systematic orders: the pool is the partition of the initial
  state.
\<close>

theorem pool_not_empty_witness:
  "1 \<le> max_orders demo_options \<and> 1 \<le> max_size_kb demo_options \<and> max_time demo_options = 0
   \<and> \<not> diversify demo_options
   \<and> generate_cost_partitionings demo_no_systematic demo_options [2, 2] demo_cp_function 0
       = Some (Inr ([([0, 1, 2], [2, 2])], 3))"
proof -
  have a: "1 \<le> max_orders demo_options" and b: "1 \<le> max_size_kb demo_options"
    and c: "max_time demo_options = 0" "\<not> diversify demo_options"
    by (simp_all add: demo_options_def)
  have r: "generate_cost_partitionings demo_no_systematic demo_options [2, 2] demo_cp_function 0
       = Some (Inr ([([0, 1, 2], [2, 2])], 3))"
    by code_simp
  show ?thesis
    using pool_not_empty [OF a b, of demo_no_systematic "[2, 2]" demo_cp_function 0] a b c r
    by simp
qed

text \<open>
  A size budget of zero, no systematic orders: the sampling loop is not entered and the
  pool returned is empty.
\<close>

theorem pool_not_empty_counterexample:
  "generate_cost_partitionings demo_no_systematic (demo_options\<lparr>max_size_kb := 0\<rparr>) [2, 2]
     demo_cp_function 0 = Some (Inr ([], 2))"
  by code_simp

text \<open>
  Claim C2. When the partition computed for the initial state evaluates to \<open>INF\<close> at the
  abstract state ids of the initial state, \<open>generate_cost_partitionings\<close> returns the
  vector with this partition as its only member. The world it leaves is the one left by
  the computation of the order for the initial state: no order was shuffled, no state
  sampled, no further order computed.
\<close>

theorem unsolvable_singleton:
  assumes "cp_compute_heuristic E (cp_for_init (fst (initial_partition E opts costs f w)))
             (get_abstract_state_ids E (get_initial_state E)) = INF_value E"
  shows "generate_cost_partitionings E opts costs f w
           = Some (Inr ([cp_for_init (fst (initial_partition E opts costs f w))],
                        snd (compute_order_for_state E
                               (get_abstract_state_ids E (get_initial_state E)) True
                               (initialize E costs (snd (read_clock E w))))))
       \<and> cp_for_init (fst (initial_partition E opts costs f w))
           = fst (f (order_for_init (fst (initial_partition E opts costs f w))) costs
                    (get_abstract_state_ids E (get_initial_state E)))"
proof -
  have "init_h (fst (initial_partition E opts costs f w)) = INF_value E"
    using assms init_values_of_initial_partition [of E opts costs f w] by simp
  then have "generate_cost_partitionings E opts costs f w
    = Some (Inr ([cp_for_init (fst (initial_partition E opts costs f w))],
                 snd (initial_partition E opts costs f w)))"
    by (simp add: generate_cost_partitionings_def case_prod_unfold Let_def)
  then show ?thesis
    using init_values_of_initial_partition [of E opts costs f w] by simp
qed

theorem unsolvable_singleton_witness:
  "cp_compute_heuristic demo_collaborators
     (cp_for_init (fst (initial_partition demo_collaborators demo_options [2147483647]
        demo_cp_function 0)))
     (get_abstract_state_ids demo_collaborators (get_initial_state demo_collaborators))
     = INF_value demo_collaborators
   \<and> generate_cost_partitionings demo_collaborators demo_options [2147483647]
       demo_cp_function 0 = Some (Inr ([([0, 1, 2], [2147483647])], 1))"
proof -
  have h: "cp_compute_heuristic demo_collaborators
     (cp_for_init (fst (initial_partition demo_collaborators demo_options [2147483647]
        demo_cp_function 0)))
     (get_abstract_state_ids demo_collaborators (get_initial_state demo_collaborators))
     = INF_value demo_collaborators"
    by code_simp
  have r: "generate_cost_partitionings demo_collaborators demo_options [2147483647]
       demo_cp_function 0 = Some (Inr ([([0, 1, 2], [2147483647])], 1))"
    by code_simp
  show ?thesis
    using unsolvable_singleton [OF h] h r by simp
qed




text \<open>
  Claim C4, as the code has it. The systematic phase leaves the accumulated size at 0. The
  sampling loop tests \<open>size_kb < max_size_kb\<close> before it computes a partition and adds the
  size estimate after, in an \<open>int\<close>: for every run of the two phases that returns, the
  pool is the pool of the systematic phase followed by the partitions admitted in the
  sampling loop, the accumulated size is what adding the size estimates of the latter
  one after the other gives, and the size accumulated before the last of them was
  admitted is below \<open>max_size_kb\<close>. When no size estimate is negative and their sum is at
  most \<open>INT_MAX\<close>, the accumulated size is the sum of the size estimates, and less the last
  estimate it is below \<open>max_size_kb\<close>. Without a diversifier the run does return.
\<close>

theorem size_accounting:
  "size_kb (systematic_phase E costs f iv dv w) = 0
   \<and> (\<forall>st. generate_phases E opts costs f iv dv w = Some st \<longrightarrow>
        (\<exists>adm. cp_heuristics st = cp_heuristics (systematic_phase E costs f iv dv w) @ adm
           \<and> size_kb st = accumulated_size E adm
           \<and> (adm = [] \<or> accumulated_size E (butlast adm) < max_size_kb opts)
           \<and> ((\<forall>c \<in> set adm. 0 \<le> estimate_size_in_kb E c)
                \<and> sum_list (map (estimate_size_in_kb E) adm) \<le> int INT_MAX \<longrightarrow>
              size_kb st = sum_list (map (estimate_size_in_kb E) adm)
              \<and> (adm = [] \<or> size_kb st - estimate_size_in_kb E (last adm)
                    < max_size_kb opts))))
   \<and> (dv = None \<longrightarrow> (\<exists>st. generate_phases E opts costs f iv dv w = Some st))"
proof (intro conjI allI impI)
  show z: "size_kb (systematic_phase E costs f iv dv w) = 0"
    using systematic_phase_effect [of E costs f iv dv w] by simp
  fix st
  assume "generate_phases E opts costs f iv dv w = Some st"
  then have "sampling_effect E opts (systematic_phase E costs f iv dv w) st"
    unfolding generate_phases_def by (rule sampling_loop_effect)
  then obtain adm where adm:
    "cp_heuristics st = cp_heuristics (systematic_phase E costs f iv dv w) @ adm"
    "size_kb st = accumulated_size E adm"
    "adm = [] \<or> accumulated_size E (butlast adm) < max_size_kb opts"
    unfolding sampling_effect_def accumulated_size_def z by (elim exE conjE)
  have exact: "size_kb st = sum_list (map (estimate_size_in_kb E) adm)
      \<and> (adm = [] \<or> size_kb st - estimate_size_in_kb E (last adm) < max_size_kb opts)"
    if pos: "\<forall>c \<in> set adm. 0 \<le> estimate_size_in_kb E c"
      and le: "sum_list (map (estimate_size_in_kb E) adm) \<le> int INT_MAX"
  proof (cases "adm = []")
    case True
    then show ?thesis
      using adm(2) by (simp add: accumulated_size_def)
  next
    case False
    then have sp: "adm = butlast adm @ [last adm]"
      by simp
    have sum: "sum_list (map (estimate_size_in_kb E) adm)
        = sum_list (map (estimate_size_in_kb E) (butlast adm))
          + estimate_size_in_kb E (last adm)"
      by (subst sp) simp
    have "last adm \<in> set adm"
      using False by simp
    then have "0 \<le> estimate_size_in_kb E (last adm)"
      using pos by blast
    then have le1: "sum_list (map (estimate_size_in_kb E) (butlast adm)) \<le> int INT_MAX"
      using le sum by linarith
    have pos1: "\<forall>c \<in> set (butlast adm). 0 \<le> estimate_size_in_kb E c"
      using pos by (meson in_set_butlastD)
    have "accumulated_size E (butlast adm)
        = sum_list (map (estimate_size_in_kb E) (butlast adm))"
      using pos1 le1 by (rule accumulated_size_exact)
    moreover have "accumulated_size E adm = sum_list (map (estimate_size_in_kb E) adm)"
      using pos le by (rule accumulated_size_exact)
    ultimately show ?thesis
      using adm(2,3) False sum by simp
  qed
  show "\<exists>adm. cp_heuristics st = cp_heuristics (systematic_phase E costs f iv dv w) @ adm
           \<and> size_kb st = accumulated_size E adm
           \<and> (adm = [] \<or> accumulated_size E (butlast adm) < max_size_kb opts)
           \<and> ((\<forall>c \<in> set adm. 0 \<le> estimate_size_in_kb E c)
                \<and> sum_list (map (estimate_size_in_kb E) adm) \<le> int INT_MAX \<longrightarrow>
              size_kb st = sum_list (map (estimate_size_in_kb E) adm)
              \<and> (adm = [] \<or> size_kb st - estimate_size_in_kb E (last adm)
                    < max_size_kb opts))"
    using adm exact by (intro exI [of _ adm]) blast
next
  assume "dv = None"
  then show "\<exists>st. generate_phases E opts costs f iv dv w = Some st"
    using generate_phases_terminates [of E opts costs f iv w] by simp
qed

theorem size_accounting_witness:
  "size_kb (systematic_phase demo_collaborators [2, 2] demo_cp_function demo_init_values None 1) = 0
   \<and> cp_heuristics
        (systematic_phase demo_collaborators [2, 2] demo_cp_function demo_init_values None 1)
       = [([1, 2, 0], [2, 2]), ([2, 0, 1], [2, 2])]
   \<and> map_option (\<lambda>st. (cp_heuristics st, size_kb st))
        (generate_phases demo_collaborators demo_options_roomy [2, 2] demo_cp_function
           demo_init_values None 1)
       = Some ([([1, 2, 0], [2, 2]), ([2, 0, 1], [2, 2]), ([0, 1, 2], [2, 2]),
                ([2, 1, 0], [2, 2])], 10)
   \<and> accumulated_size demo_collaborators [([0, 1, 2], [2, 2]), ([2, 1, 0], [2, 2])] = 10
   \<and> accumulated_size demo_collaborators [([0, 1, 2], [2, 2])] < max_size_kb demo_options_roomy
   \<and> 0 \<le> estimate_size_in_kb demo_collaborators ([0, 1, 2], [2, 2])
   \<and> 0 \<le> estimate_size_in_kb demo_collaborators ([2, 1, 0], [2, 2])
   \<and> sum_list (map (estimate_size_in_kb demo_collaborators)
        [([0, 1, 2], [2, 2]), ([2, 1, 0], [2, 2])]) \<le> int INT_MAX
   \<and> 10 - estimate_size_in_kb demo_collaborators ([2, 1, 0], [2, 2])
       < max_size_kb demo_options_roomy"
proof -
  have a: "cp_heuristics
        (systematic_phase demo_collaborators [2, 2] demo_cp_function demo_init_values None 1)
       = [([1, 2, 0], [2, 2]), ([2, 0, 1], [2, 2])]"
    by code_simp
  have b: "map_option (\<lambda>st. (cp_heuristics st, size_kb st))
        (generate_phases demo_collaborators demo_options_roomy [2, 2] demo_cp_function
           demo_init_values None 1)
       = Some ([([1, 2, 0], [2, 2]), ([2, 0, 1], [2, 2]), ([0, 1, 2], [2, 2]),
                ([2, 1, 0], [2, 2])], 10)"
    by code_simp
  have c: "10 - estimate_size_in_kb demo_collaborators ([2, 1, 0], [2, 2])
       < max_size_kb demo_options_roomy"
    "accumulated_size demo_collaborators [([0, 1, 2], [2, 2]), ([2, 1, 0], [2, 2])] = 10"
    "accumulated_size demo_collaborators [([0, 1, 2], [2, 2])] < max_size_kb demo_options_roomy"
    "0 \<le> estimate_size_in_kb demo_collaborators ([0, 1, 2], [2, 2])"
    "0 \<le> estimate_size_in_kb demo_collaborators ([2, 1, 0], [2, 2])"
    by code_simp+
  have d: "sum_list (map (estimate_size_in_kb demo_collaborators)
        [([0, 1, 2], [2, 2]), ([2, 1, 0], [2, 2])]) \<le> int INT_MAX"
    by (simp add: demo_collaborators_def INT_MAX_def)
  show ?thesis
    using size_accounting [of demo_collaborators "[2, 2]" demo_cp_function demo_init_values
        None 1 demo_options_roomy] a b c d
    by simp
qed

text \<open>
  Partitions of size \<open>2^30\<close> under the cap \<open>2^31 - 1\<close>: the second addition takes the
  \<open>int\<close> to \<open>-2^31\<close>, which is below the cap, and the loop goes on until the pool has
  \<open>max_orders = 5\<close> members, with an accumulated size of \<open>2^30\<close>.
\<close>

lemma size_kb_wraps_around:
  "map_option (\<lambda>st. (length (cp_heuristics st), size_kb st))
     (generate_phases demo_huge demo_options_huge [2, 2] demo_cp_function
        (fst (initial_partition demo_huge demo_options_huge [2, 2] demo_cp_function 0))
        None 1)
     = Some (5, 1073741824)
   \<and> wrap_int (1073741824 + 1073741824) = - 2147483648"
  by code_simp

text \<open>
  With \<open>max_size_kb = 7\<close> and partitions of size 5, two partitions are admitted in the
  sampling loop and the accumulated size is 10.
\<close>

theorem size_accounting_counterexample:
  "map_option size_kb
     (generate_phases demo_collaborators demo_options_roomy [2, 2] demo_cp_function
        demo_init_values None 1) = Some 10
   \<and> max_size_kb demo_options_roomy = 7"
  by code_simp

subsection \<open>The costs passed to the cp function\<close>

lemma initial_partition_agree:
  assumes "\<forall>order ids. fst (f order costs ids) = fst (g order costs ids)"
  shows "initial_partition E opts costs f w = initial_partition E opts costs g w"
  using assms by (simp add: initial_partition_def case_prod_unfold Let_def)

lemma systematic_loop_agree:
  assumes "\<forall>order ids. fst (f order costs ids) = fst (g order costs ids)"
  shows "systematic_loop E f costs ids tm orders st = systematic_loop E g costs ids tm orders st"
proof (induction orders arbitrary: st)
  case Nil
  show ?case by simp
next
  case (Cons sys_order rest)
  show ?case
    using assms Cons.IH by (simp add: case_prod_unfold Let_def)
qed

lemma sampling_body_agree:
  assumes "\<forall>order ids. fst (f order costs ids) = fst (g order costs ids)"
    and "\<forall>tm ids order cp h b w.
           optimize_order_with_hill_climbing E f tm costs ids order cp h b w
         = optimize_order_with_hill_climbing E g tm costs ids order cp h b w"
  shows "sampling_body E opts costs f iv st = sampling_body E opts costs g iv st"
  using assms by (simp add: sampling_body_def case_prod_unfold Let_def)

lemma sampling_loop_agree_Some:
  assumes b: "\<And>st. sampling_body E opts costs f iv st = sampling_body E opts costs g iv st"
    and r: "sampling_loop E opts costs f iv st = Some y"
  shows "sampling_loop E opts costs g iv st = Some y"
  using r
proof (rule sampling_loop_rule)
  fix st st1 :: "('a, 'b, 'c) gen_state"
  assume "sampling_condition E opts (timer iv) st = (False, st1)"
  then show "sampling_loop E opts costs g iv st = Some st1"
    by (subst sampling_loop.simps) simp
next
  fix st st1 y :: "('a, 'b, 'c) gen_state"
  assume "sampling_condition E opts (timer iv) st = (True, st1)"
    and "sampling_loop E opts costs g iv (sampling_body E opts costs f iv st1) = Some y"
  then show "sampling_loop E opts costs g iv st = Some y"
    using b [of st1] by (subst sampling_loop.simps) simp
qed

lemma sampling_loop_agree:
  assumes "\<And>st. sampling_body E opts costs f iv st = sampling_body E opts costs g iv st"
  shows "sampling_loop E opts costs f iv st = sampling_loop E opts costs g iv st"
proof (cases "sampling_loop E opts costs f iv st")
  case (Some y)
  then show ?thesis
    using sampling_loop_agree_Some [of E opts costs f iv g st y] assms by simp
next
  case None
  show ?thesis
  proof (cases "sampling_loop E opts costs g iv st")
    case None
    then show ?thesis using \<open>sampling_loop E opts costs f iv st = None\<close> by simp
  next
    case (Some y)
    then have "sampling_loop E opts costs f iv st = Some y"
      using sampling_loop_agree_Some [of E opts costs g iv f st y] assms by simp
    then show ?thesis using None by simp
  qed
qed

text \<open>
  Claim C10. The costs are a constant argument of the model, as they are a const
  reference in the code, and every call of the cp function made by
  \<open>generate_cost_partitionings\<close> passes them: the remaining costs that a call leaves
  behind are dropped. So the result depends on the cp function only through the
  partitions it returns on the original costs. For two cp functions that return the
  same partition whenever they are given the original costs (whatever they do to the
  vector they are given, and whatever they return on other costs), and an order
  optimizer that does not tell them apart, \<open>generate_cost_partitionings\<close> gives the same
  result.
\<close>

theorem cp_function_gets_original_costs:
  assumes "\<forall>order ids. fst (f order costs ids) = fst (g order costs ids)"
    and "\<forall>tm ids order cp h b w.
           optimize_order_with_hill_climbing E f tm costs ids order cp h b w
         = optimize_order_with_hill_climbing E g tm costs ids order cp h b w"
  shows "generate_cost_partitionings E opts costs f w
       = generate_cost_partitionings E opts costs g w"
proof -
  have body: "sampling_body E opts costs f iv st = sampling_body E opts costs g iv st"
    for iv st
    using assms by (rule sampling_body_agree)
  have sys: "systematic_phase E costs f iv dv w1 = systematic_phase E costs g iv dv w1"
    for iv dv w1
    unfolding systematic_phase_def using assms(1) by (rule systematic_loop_agree)
  have "generate_phases E opts costs f iv dv w1 = generate_phases E opts costs g iv dv w1"
    for iv dv w1
    unfolding generate_phases_def sys
    using body by (rule sampling_loop_agree)
  then have phases: "generate_phases E opts costs f = generate_phases E opts costs g"
    by (intro ext)
  have init: "initial_partition E opts costs f w = initial_partition E opts costs g w"
    using assms(1) by (rule initial_partition_agree)
  show ?thesis
    unfolding generate_cost_partitionings_def phases init ..
qed

theorem cp_function_gets_original_costs_witness:
  "(\<forall>order ids. fst (demo_cp_function order [2, 2] ids)
        = fst (demo_cp_function_other order [2, 2] ids))
   \<and> (\<forall>tm ids order cp h b w.
         optimize_order_with_hill_climbing demo_collaborators demo_cp_function tm [2, 2] ids
           order cp h b w
       = optimize_order_with_hill_climbing demo_collaborators demo_cp_function_other tm [2, 2]
           ids order cp h b w)
   \<and> snd (demo_cp_function [0] [2, 2] []) \<noteq> snd (demo_cp_function_other [0] [2, 2] [])
   \<and> fst (demo_cp_function [0] [1] []) \<noteq> fst (demo_cp_function_other [0] [1] [])
   \<and> generate_cost_partitionings demo_collaborators demo_options_roomy [2, 2]
        demo_cp_function 0
     = generate_cost_partitionings demo_collaborators demo_options_roomy [2, 2]
        demo_cp_function_other 0"
proof -
  have a: "\<forall>order ids. fst (demo_cp_function order [2, 2] ids)
        = fst (demo_cp_function_other order [2, 2] ids)"
    by (simp add: demo_cp_function_def demo_cp_function_other_def)
  have b: "\<forall>tm ids order cp h b w.
         optimize_order_with_hill_climbing demo_collaborators demo_cp_function tm [2, 2] ids
           order cp h b w
       = optimize_order_with_hill_climbing demo_collaborators demo_cp_function_other tm [2, 2]
           ids order cp h b w"
    by (simp add: demo_collaborators_def demo_optimize_def demo_cp_function_def
        demo_cp_function_other_def)
  have c: "snd (demo_cp_function [0] [2, 2] []) \<noteq> snd (demo_cp_function_other [0] [2, 2] [])"
    "fst (demo_cp_function [0] [1] []) \<noteq> fst (demo_cp_function_other [0] [1] [])"
    by (simp_all add: demo_cp_function_def demo_cp_function_other_def)
  show ?thesis
    using cp_function_gets_original_costs [OF a b, of demo_options_roomy 0] a b c
    by simp
qed

section \<open>Properties of the evaluator\<close>

lemma fold_max_Max: "fold max hs (a::int) = Max (insert a (set hs))"
  using Max.set_eq_fold [of a hs] by simp

text \<open>
  Claim C5. When the unsolvability heuristic certifies the abstract state ids of the
  state a dead end, \<open>compute_heuristic\<close> returns \<open>DEAD_END\<close> and leaves the evaluator as
  it was, whatever the pool is: no pool member is evaluated. Otherwise, for a pool that
  is not empty and whose members evaluate to values of at least 0, it returns the maximum
  of the evaluations of the pool members at these ids.
\<close>

theorem compute_heuristic_dead_end_or_max:
  "(is_unsolvable H (ids_of_state H s) \<longrightarrow>
      (\<forall>p. compute_heuristic (H\<lparr>pool := p\<rparr>) s = (DEAD_END H, H\<lparr>pool := p\<rparr>)))
   \<and> (\<not> is_unsolvable H (ids_of_state H s) \<longrightarrow> pool H \<noteq> [] \<longrightarrow>
      (\<forall>cp \<in> set (pool H). 0 \<le> evaluate H cp (ids_of_state H s)) \<longrightarrow>
      fst (compute_heuristic H s)
        = Max ((\<lambda>cp. evaluate H cp (ids_of_state H s)) ` set (pool H)))"
proof (intro conjI impI allI)
  fix p
  assume "is_unsolvable H (ids_of_state H s)"
  then show "compute_heuristic (H\<lparr>pool := p\<rparr>) s = (DEAD_END H, H\<lparr>pool := p\<rparr>)"
    by (simp add: compute_heuristic_def)
next
  let ?hs = "(\<lambda>cp. evaluate H cp (ids_of_state H s)) ` set (pool H)"
  assume u: "\<not> is_unsolvable H (ids_of_state H s)" and ne: "pool H \<noteq> []"
    and pos: "\<forall>cp \<in> set (pool H). 0 \<le> evaluate H cp (ids_of_state H s)"
  have "fst (compute_heuristic H s) = Max (insert 0 ?hs)"
    using u by (simp add: compute_heuristic_def compute_max_h_with_statistics_def
        case_prod_unfold Let_def fold_max_Max)
  moreover have "finite ?hs" "?hs \<noteq> {}"
    using ne by simp_all
  moreover have "0 \<le> Max ?hs"
  proof -
    obtain cp where "cp \<in> set (pool H)" using ne by (cases "pool H") auto
    then have "0 \<le> evaluate H cp (ids_of_state H s)"
      "evaluate H cp (ids_of_state H s) \<le> Max ?hs"
      using pos by simp_all
    then show ?thesis by linarith
  qed
  ultimately show "fst (compute_heuristic H s) = Max ?hs"
    by (simp add: max_def)
qed

theorem compute_heuristic_dead_end_or_max_witness:
  "is_unsolvable demo_evaluator (ids_of_state demo_evaluator 7)
   \<and> compute_heuristic (demo_evaluator\<lparr>pool := [100]\<rparr>) 7
       = (- 1, demo_evaluator\<lparr>pool := [100]\<rparr>)
   \<and> \<not> is_unsolvable demo_evaluator (ids_of_state demo_evaluator 1)
   \<and> pool demo_evaluator \<noteq> []
   \<and> list_all (\<lambda>cp. 0 \<le> evaluate demo_evaluator cp (ids_of_state demo_evaluator 1))
        (pool demo_evaluator)
   \<and> fst (compute_heuristic demo_evaluator 1) = 10
   \<and> num_best_order (snd (compute_heuristic demo_evaluator 1)) = [0, 1, 0]"
proof -
  have a: "is_unsolvable demo_evaluator (ids_of_state demo_evaluator 7)"
    and b: "\<not> is_unsolvable demo_evaluator (ids_of_state demo_evaluator 1)"
    and c: "pool demo_evaluator \<noteq> []"
    and d: "list_all (\<lambda>cp. 0 \<le> evaluate demo_evaluator cp (ids_of_state demo_evaluator 1))
        (pool demo_evaluator)"
    by (simp_all add: demo_evaluator_def)
  have e: "compute_heuristic demo_evaluator 1 = (10, demo_evaluator\<lparr>num_best_order := [0, 1, 0]\<rparr>)"
    by (simp add: demo_evaluator_def compute_heuristic_def compute_max_h_with_statistics_def)
  have f: "DEAD_END demo_evaluator = - 1"
    by (simp add: demo_evaluator_def)
  show ?thesis
    using compute_heuristic_dead_end_or_max [of demo_evaluator 7] a b c d e f
    by simp
qed

end
